theory Spec2Isabelle
  imports Main "HOL-Library.FSet"
begin

unbundle bit_operations_syntax

section \<open>Recovery of the image catalog from the uploads directory\<close>

text \<open>
  A shallow embedding of \<^verbatim>\<open>scripts/recover_from_uploads.py\<close>. Python strings are
  modelled as \<^typ>\<open>string\<close>; a \<^typ>\<open>char\<close> stands for a code point below 256,
  so the regular expression class \<^verbatim>\<open>\d\<close> is the ten ASCII digits. Paths follow
  the POSIX flavour of \<^verbatim>\<open>pathlib\<close>. Exceptions are values of \<open>error\<close>.
\<close>

datatype error = ValueError | OSError | IntegrityError

subsection \<open>String operations of the Python standard library\<close>

text \<open>\<^verbatim>\<open>s.split(sep)\<close> for a one-character separator: empty pieces are kept.\<close>

fun py_split :: "char \<Rightarrow> string \<Rightarrow> string list" where
  "py_split sep [] = [[]]"
| "py_split sep (c # cs) =
     (if c = sep then [] # py_split sep cs
      else (case py_split sep cs of [] \<Rightarrow> [[c]] | p # ps \<Rightarrow> (c # p) # ps))"

text \<open>\<^verbatim>\<open>sep.join(xs)\<close>.\<close>

fun py_join :: "string \<Rightarrow> string list \<Rightarrow> string" where
  "py_join sep [] = []"
| "py_join sep [x] = x"
| "py_join sep (x # y # ys) = x @ sep @ py_join sep (y # ys)"

text \<open>\<^verbatim>\<open>s.strip(chars)\<close>: characters of \<open>chars\<close> are removed at both ends.\<close>

definition py_strip :: "string \<Rightarrow> string \<Rightarrow> string" where
  "py_strip chars s =
     rev (dropWhile (\<lambda>c. c \<in> set chars) (rev (dropWhile (\<lambda>c. c \<in> set chars) s)))"

definition startswith :: "string \<Rightarrow> string \<Rightarrow> bool" where
  "startswith s p = (take (length p) s = p)"

text \<open>\<^verbatim>\<open>s.replace(a, b)\<close> for single characters.\<close>

definition replace_char :: "char \<Rightarrow> char \<Rightarrow> string \<Rightarrow> string" where
  "replace_char a b s = map (\<lambda>c. if c = a then b else c) s"

definition backslash :: char where
  "backslash = CHR 0x5C"

text \<open>\<^verbatim>\<open>str(n)\<close> for a natural number: its decimal numeral.\<close>

definition digit_char :: "nat \<Rightarrow> char" where
  "digit_char d = ''0123456789'' ! d"

function str_nat :: "nat \<Rightarrow> string" where
  "str_nat n = (if n < 10 then [digit_char n] else str_nat (n div 10) @ [digit_char (n mod 10)])"
  by pat_completeness auto
termination
  by (relation "measure (\<lambda>n. n)") auto

declare str_nat.simps [simp del]

text \<open>The regular expression class \<^verbatim>\<open>\d\<close> on code points below 256.\<close>

definition is_digit :: "char \<Rightarrow> bool" where
  "is_digit c = (c \<in> set ''0123456789'')"

text \<open>
  Character classes on code points below 256: \<^verbatim>\<open>str.isspace\<close>, the regular
  expression class \<^verbatim>\<open>\w\<close> and \<^verbatim>\<open>str.lower\<close>.
\<close>

definition in_range :: "nat \<Rightarrow> nat \<Rightarrow> char \<Rightarrow> bool" where
  "in_range lo hi c = (lo \<le> of_char c \<and> of_char c \<le> hi)"

definition is_space :: "char \<Rightarrow> bool" where
  "is_space c = (in_range 9 13 c \<or> in_range 28 32 c \<or> in_range 133 133 c \<or> in_range 160 160 c)"

definition is_word :: "char \<Rightarrow> bool" where
  "is_word c =
     (in_range 48 57 c \<or> in_range 65 90 c \<or> in_range 95 95 c \<or> in_range 97 122 c \<or>
      in_range 170 170 c \<or> in_range 178 179 c \<or> in_range 181 181 c \<or> in_range 185 186 c \<or>
      in_range 188 190 c \<or> in_range 192 214 c \<or> in_range 216 246 c \<or> in_range 248 255 c)"

definition lower_char :: "char \<Rightarrow> char" where
  "lower_char c =
     (if in_range 65 90 c \<or> in_range 192 214 c \<or> in_range 216 222 c
      then char_of (of_char c + (32 :: nat)) else c)"

definition py_lower :: "string \<Rightarrow> string" where
  "py_lower s = map lower_char s"

text \<open>\<^verbatim>\<open>s.strip()\<close>: white space is removed at both ends.\<close>

definition py_strip_space :: "string \<Rightarrow> string" where
  "py_strip_space s = rev (dropWhile is_space (rev (dropWhile is_space s)))"

subsection \<open>Pure paths (\<^verbatim>\<open>pathlib.PurePosixPath\<close>)\<close>

text \<open>
  A path string is parsed into a root (\<open>''/''\<close>, \<open>''//''\<close> for exactly two leading
  slashes, or none) and its parts: the pieces between slashes, with empty pieces and
  single dots dropped.
\<close>

definition path_root :: "string \<Rightarrow> string" where
  "path_root s =
     (if startswith s ''//'' \<and> \<not> startswith s ''///'' then ''//''
      else if startswith s ''/'' then ''/''
      else [])"

definition path_parts :: "string \<Rightarrow> string list" where
  "path_parts s = filter (\<lambda>p. p \<noteq> [] \<and> p \<noteq> ''.'') (py_split CHR ''/'' s)"

definition path_str :: "string \<Rightarrow> string list \<Rightarrow> string" where
  "path_str root parts =
     (if root = [] \<and> parts = [] then ''.'' else root @ py_join ''/'' parts)"

text \<open>\<^verbatim>\<open>str(Path(s).parent)\<close>: the last part is dropped; a path without parts is its own parent.\<close>

definition path_parent_str :: "string \<Rightarrow> string" where
  "path_parent_str s = path_str (path_root s) (butlast (path_parts s))"

text \<open>
  \<^verbatim>\<open>Path.suffix\<close> of a file name: the part from the last dot on, unless that dot
  is the first or the last character of the name.
\<close>

definition path_suffix :: "string \<Rightarrow> string" where
  "path_suffix name =
     (let ext = rev (takeWhile (\<lambda>c. c \<noteq> CHR ''.'') (rev name)) in
      if CHR ''.'' \<in> set name \<and> ext \<noteq> [] \<and> length ext + 1 < length name
      then CHR ''.'' # ext else [])"

text \<open>
  An absolute, resolved path is the list of its components; \<open>abs_str\<close> is its string.
\<close>

definition abs_str :: "string list \<Rightarrow> string" where
  "abs_str comps = ''/'' @ py_join ''/'' comps"

definition path_name :: "string list \<Rightarrow> string" where
  "path_name comps = (if comps = [] then [] else last comps)"

subsection \<open>Path classifier\<close>

definition looks_like_sharded_upload :: "string \<Rightarrow> bool" where
  "looks_like_sharded_upload relative_key =
     (let parts = py_split CHR ''/'' relative_key in
      if length parts < 3 then False
      else if \<not> (length (parts ! 0) = 4 \<and> list_all is_digit (parts ! 0)) then False
      else if \<not> ((length (parts ! 1) = 1 \<or> length (parts ! 1) = 2) \<and> list_all is_digit (parts ! 1))
        then False
      else True)"

definition decide_album_path :: "string \<Rightarrow> string \<Rightarrow> error + string option" where
  "decide_album_path rel_key mode =
     (let parent = replace_char backslash CHR ''/'' (path_parent_str rel_key) in
      if parent = ''.'' then Inr None
      else if mode = ''none'' then Inr None
      else if mode = ''by-dir'' then Inr (Some (''/'' @ py_strip ''/'' parent))
      else if mode = ''auto'' then
        (if looks_like_sharded_upload rel_key then Inr None
         else Inr (Some (''/'' @ py_strip ''/'' parent)))
      else Inl ValueError)"

text \<open>
  A relative key as \<open>normalize_rel_key\<close> produces it is the join of its segments; a
  segment is a file or directory name: non-empty, not a single dot, and free of
  slashes. It may hold any other character, a backslash included.
\<close>

definition key_segment :: "string \<Rightarrow> bool" where
  "key_segment s = (s \<noteq> [] \<and> s \<noteq> ''.'' \<and> CHR ''/'' \<notin> set s)"

definition sharded_segments :: "string list \<Rightarrow> bool" where
  "sharded_segments segs =
     (3 \<le> length segs \<and> length (segs ! 0) = 4 \<and> list_all is_digit (segs ! 0) \<and>
      (length (segs ! 1) = 1 \<or> length (segs ! 1) = 2) \<and> list_all is_digit (segs ! 1))"

subsection \<open>The environment of a run\<close>

text \<open>
  What the script draws from outside: the identifiers returned by \<^verbatim>\<open>uuid.uuid4()\<close>
  (the \<open>k\<close>-th call returns \<open>uuid4 w k\<close>), the readings of the clock by
  \<^verbatim>\<open>now_iso()\<close>, and the table of \<^verbatim>\<open>mimetypes.guess_type\<close>.
\<close>

record world =
  uuid4 :: "nat \<Rightarrow> string"
  now_iso :: "nat \<Rightarrow> string"
  guess_type :: "string \<Rightarrow> string option"

subsection \<open>Media classification\<close>

definition ALLOWED_EXTENSIONS :: "string set" where
  "ALLOWED_EXTENSIONS =
     {''.jpg'', ''.jpeg'', ''.png'', ''.gif'', ''.webp'', ''.avif'', ''.bmp'', ''.svg''}"

definition IGNORED_DIR_NAMES :: "string set" where
  "IGNORED_DIR_NAMES = {''.cache'', ''.trash'', ''config'', ''logs''}"

definition is_image_mime :: "string option \<Rightarrow> bool" where
  "is_image_mime m = (case m of None \<Rightarrow> False | Some t \<Rightarrow> t \<noteq> [] \<and> startswith t ''image/'')"

definition is_image_file :: "world \<Rightarrow> string list \<Rightarrow> bool" where
  "is_image_file w path =
     (if py_lower (path_suffix (path_name path)) \<in> ALLOWED_EXTENSIONS then True
      else is_image_mime (guess_type w (abs_str path)))"

definition fallback_map :: "string \<Rightarrow> string option" where
  "fallback_map =
     [''.jpg'' \<mapsto> ''image/jpeg'', ''.jpeg'' \<mapsto> ''image/jpeg'', ''.png'' \<mapsto> ''image/png'',
      ''.gif'' \<mapsto> ''image/gif'', ''.webp'' \<mapsto> ''image/webp'', ''.avif'' \<mapsto> ''image/avif'',
      ''.bmp'' \<mapsto> ''image/bmp'', ''.svg'' \<mapsto> ''image/svg+xml'']"

definition guess_mime :: "world \<Rightarrow> string list \<Rightarrow> string" where
  "guess_mime w path =
     (if is_image_mime (guess_type w (abs_str path)) then the (guess_type w (abs_str path))
      else (case fallback_map (py_lower (path_suffix (path_name path))) of
              Some m \<Rightarrow> m
            | None \<Rightarrow> ''application/octet-stream''))"

subsection \<open>Slugs\<close>

text \<open>
  \<^verbatim>\<open>re.sub(r"[^\w\u4e00-\u9fff]+", "-", s)\<close>: every maximal run of characters outside
  the word class becomes one hyphen (the CJK range lies above the modelled code points).
\<close>

function collapse_non_word :: "string \<Rightarrow> string" where
  "collapse_non_word [] = []"
| "collapse_non_word (c # cs) =
     (if is_word c then c # collapse_non_word cs
      else CHR ''-'' # collapse_non_word (dropWhile (\<lambda>x. \<not> is_word x) cs))"
  by pat_completeness auto
termination
  by (relation "measure length") (auto simp: length_dropWhile_le less_Suc_eq_le)

definition slugify :: "string \<Rightarrow> string" where
  "slugify text =
     (let lowered = py_strip ''-_'' (collapse_non_word (py_lower (py_strip_space text)))
      in if lowered \<noteq> [] then lowered else ''album'')"

subsection \<open>SHA-1 of the UTF-8 encoding of a string\<close>

text \<open>
  \<^verbatim>\<open>hashlib.sha1(s.encode("utf-8")).hexdigest()[:6]\<close>. Bytes and 32-bit words are
  natural numbers, with the reduction modulo \<open>2^32\<close> written out.
\<close>

definition add32 :: "nat \<Rightarrow> nat \<Rightarrow> nat" where
  "add32 x y = (x + y) mod 4294967296"

definition rotl32 :: "nat \<Rightarrow> nat \<Rightarrow> nat" where
  "rotl32 n x = (x * 2 ^ n) mod 4294967296 + x div 2 ^ (32 - n)"

definition not32 :: "nat \<Rightarrow> nat" where
  "not32 x = 4294967295 - x"

fun utf8_encode :: "string \<Rightarrow> nat list" where
  "utf8_encode [] = []"
| "utf8_encode (c # cs) =
     (if of_char c < (128 :: nat) then [of_char c]
      else [192 + of_char c div 64, 128 + of_char c mod 64]) @ utf8_encode cs"

definition be64 :: "nat \<Rightarrow> nat list" where
  "be64 n = map (\<lambda>i. (n div 256 ^ (7 - i)) mod 256) [0..<8]"

fun zeros :: "nat \<Rightarrow> nat list" where
  "zeros n = (if n = 0 then [] else 0 # zeros (n - 1))"

declare zeros.simps [simp del]

definition sha1_pad :: "nat list \<Rightarrow> nat list" where
  "sha1_pad m = m @ [128] @ zeros ((119 - length m mod 64) mod 64) @ be64 (8 * length m)"

fun be32 :: "nat list \<Rightarrow> nat list" where
  "be32 (a # b # c # d # r) = (((a * 256 + b) * 256 + c) * 256 + d) # be32 r"
| "be32 _ = []"

text \<open>The message schedule, most recent word first, until it holds 80 words.\<close>

function sha1_schedule :: "nat list \<Rightarrow> nat list" where
  "sha1_schedule rws =
     (if 80 \<le> length rws then rev rws
      else sha1_schedule (rotl32 1 (rws ! 2 XOR rws ! 7 XOR rws ! 13 XOR rws ! 15) # rws))"
  by pat_completeness auto
termination
  by (relation "measure (\<lambda>rws. 80 - length rws)") auto

declare sha1_schedule.simps [simp del]

definition sha1_f :: "nat \<Rightarrow> nat \<Rightarrow> nat \<Rightarrow> nat \<Rightarrow> nat" where
  "sha1_f t b c d =
     (if t < 20 then (b AND c) OR (not32 b AND d)
      else if t < 40 then b XOR c XOR d
      else if t < 60 then (b AND c) OR (b AND d) OR (c AND d)
      else b XOR c XOR d)"

definition sha1_k :: "nat \<Rightarrow> nat" where
  "sha1_k t = (if t < 20 then 0x5A827999 else if t < 40 then 0x6ED9EBA1
               else if t < 60 then 0x8F1BBCDC else 0xCA62C1D6)"

fun sha1_rounds :: "nat \<Rightarrow> nat list \<Rightarrow> nat list \<Rightarrow> nat list" where
  "sha1_rounds t (w # ws) [a, b, c, d, e] =
     sha1_rounds (t + 1) ws
       [add32 (add32 (add32 (add32 (rotl32 5 a) (sha1_f t b c d)) e) (sha1_k t)) w,
        a, rotl32 30 b, c, d]"
| "sha1_rounds t _ s = s"

definition sha1_block :: "nat list \<Rightarrow> nat list \<Rightarrow> nat list" where
  "sha1_block h blk = map2 add32 h (sha1_rounds 0 (sha1_schedule (rev (be32 blk))) h)"

fun sha1_blocks :: "nat list \<Rightarrow> nat list \<Rightarrow> nat list" where
  "sha1_blocks h [] = h"
| "sha1_blocks h (x # xs) = sha1_blocks (sha1_block h (take 64 (x # xs))) (drop 64 (x # xs))"

definition sha1 :: "nat list \<Rightarrow> nat list" where
  "sha1 m = sha1_blocks [0x67452301, 0xEFCDAB89, 0x98BADCFE, 0x10325476, 0xC3D2E1F0] (sha1_pad m)"

definition hex_digit :: "nat \<Rightarrow> char" where
  "hex_digit n = ''0123456789abcdef'' ! n"

definition sha1_hex6 :: "string \<Rightarrow> string" where
  "sha1_hex6 s = map (\<lambda>i. hex_digit ((hd (sha1 (utf8_encode s)) div 16 ^ (7 - i)) mod 16)) [0..<6]"

subsection \<open>The store\<close>

text \<open>
  The two tables the script reads and writes, with the columns of \<open>ensure_schema\<close>;
  a column that may be \<^verbatim>\<open>NULL\<close> is an option. Rows are kept in insertion order.
\<close>

record album_row =
  alb_id :: string
  alb_name :: string
  alb_slug :: string
  alb_parent_id :: "string option"
  alb_password :: "string option"
  alb_is_public :: "int option"
  alb_cover_file_id :: "string option"
  alb_path :: string
  alb_created_at :: string
  alb_updated_at :: string

record file_row =
  file_id :: string
  file_key :: string
  original_name :: string
  file_size :: int
  mime_type :: string
  width :: "int option"
  height :: "int option"
  thumbhash :: "string option"
  tags :: "string option"
  caption :: "string option"
  semantic_description :: "string option"
  aliases :: "string option"
  annotation_updated_at :: "string option"
  exif_data :: "string option"
  album_id :: "string option"
  created_at :: string
  updated_at :: string

record store =
  albums :: "album_row list"
  files :: "file_row list"

text \<open>\<^verbatim>\<open>SELECT 1 FROM albums WHERE slug = ? LIMIT 1\<close>.\<close>

definition slug_exists :: "store \<Rightarrow> string \<Rightarrow> bool" where
  "slug_exists conn candidate = (candidate \<in> set (map alb_slug (albums conn)))"

text \<open>
  \<^verbatim>\<open>INSERT INTO albums\<close>: the primary key and the unique index on the slug raise
  \<^verbatim>\<open>sqlite3.IntegrityError\<close>.
\<close>

definition insert_album :: "store \<Rightarrow> album_row \<Rightarrow> error + store" where
  "insert_album conn row =
     (if alb_id row \<in> set (map alb_id (albums conn)) \<or> alb_slug row \<in> set (map alb_slug (albums conn))
      then Inl IntegrityError
      else Inr (conn\<lparr>albums := albums conn @ [row]\<rparr>))"

text \<open>\<^verbatim>\<open>INSERT INTO files\<close>: the primary key and the unique index on the key.\<close>

definition insert_file :: "store \<Rightarrow> file_row \<Rightarrow> error + store" where
  "insert_file conn row =
     (if file_id row \<in> set (map file_id (files conn)) \<or> file_key row \<in> set (map file_key (files conn))
      then Inl IntegrityError
      else Inr (conn\<lparr>files := files conn @ [row]\<rparr>))"

text \<open>The \<^verbatim>\<open>UPDATE files SET ... WHERE id = ?\<close> of the repair.\<close>

definition update_file ::
  "store \<Rightarrow> string option \<Rightarrow> string \<Rightarrow> int \<Rightarrow> string \<Rightarrow> string \<Rightarrow> string \<Rightarrow> store" where
  "update_file conn new_album_id new_name new_size new_mime ts fid =
     conn\<lparr>files := map (\<lambda>r. if file_id r = fid
                               then r\<lparr>album_id := new_album_id, original_name := new_name,
                                      file_size := new_size, mime_type := new_mime, updated_at := ts\<rparr>
                               else r) (files conn)\<rparr>"

subsection \<open>Slug allocator\<close>

definition first_candidate :: "string \<Rightarrow> string \<Rightarrow> string fset \<Rightarrow> string" where
  "first_candidate base_slug album_path slug_cache =
     (if base_slug |\<in>| slug_cache then base_slug @ ''-'' @ sha1_hex6 album_path else base_slug)"

definition numbered_candidate :: "string \<Rightarrow> nat \<Rightarrow> string" where
  "numbered_candidate base_slug counter = base_slug @ ''-'' @ str_nat counter"

definition occupied :: "store \<Rightarrow> string fset \<Rightarrow> string \<Rightarrow> bool" where
  "occupied conn slug_cache candidate = (slug_exists conn candidate \<or> candidate |\<in>| slug_cache)"

text \<open>Decimal numerals determine their number, so the numbered candidates never repeat.\<close>

lemma digit_char_inj: "a < 10 \<Longrightarrow> b < 10 \<Longrightarrow> digit_char a = digit_char b \<Longrightarrow> a = b"
proof -
  assume a: "a < 10" and b: "b < 10" and e: "digit_char a = digit_char b"
  from a have "a \<in> {0, 1, 2, 3, 4, 5, 6, 7, 8, 9}" by auto
  moreover from b have "b \<in> {0, 1, 2, 3, 4, 5, 6, 7, 8, 9}" by auto
  ultimately show "a = b"
    using e by (auto simp: digit_char_def)
qed

lemma str_nat_not_Nil: "str_nat n \<noteq> []"
  by (subst str_nat.simps) simp

lemma str_nat_inj: "str_nat m = str_nat n \<Longrightarrow> m = n"
proof (induction m arbitrary: n rule: less_induct)
  case (less m)
  show ?case
  proof (cases "m < 10")
    case m: True
    show ?thesis
    proof (cases "n < 10")
      case True
      with m less.prems show ?thesis
        by (simp add: str_nat.simps [of m] str_nat.simps [of n] digit_char_inj)
    next
      case False
      with m less.prems show ?thesis
        using str_nat_not_Nil [of "n div 10"]
        by (simp add: str_nat.simps [of m] str_nat.simps [of n])
    qed
  next
    case m: False
    show ?thesis
    proof (cases "n < 10")
      case True
      with m less.prems show ?thesis
        using str_nat_not_Nil [of "m div 10"]
        by (simp add: str_nat.simps [of m] str_nat.simps [of n])
    next
      case False
      with m less.prems
      have e: "str_nat (m div 10) = str_nat (n div 10)" "digit_char (m mod 10) = digit_char (n mod 10)"
        by (simp_all add: str_nat.simps [of m] str_nat.simps [of n])
      from m have "m div 10 < m" by simp
      then have "m div 10 = n div 10" using e(1) by (rule less.IH)
      moreover from e(2) have "m mod 10 = n mod 10"
        by (intro digit_char_inj) simp_all
      ultimately show ?thesis
        by (metis div_mult_mod_eq)
    qed
  qed
qed

lemma numbered_candidate_inj: "numbered_candidate b i = numbered_candidate b j \<Longrightarrow> i = j"
  by (simp add: numbered_candidate_def str_nat_inj)

lemma finite_occupied_numbers: "finite {k. occupied conn slug_cache (numbered_candidate b k)}"
proof -
  have "finite (set (map alb_slug (albums conn)) \<union> fset slug_cache)"
    by simp
  moreover have "inj (numbered_candidate b)"
    by (rule injI) (rule numbered_candidate_inj)
  ultimately have "finite (numbered_candidate b -` (set (map alb_slug (albums conn)) \<union> fset slug_cache))"
    by (rule finite_vimageI)
  moreover have "{k. occupied conn slug_cache (numbered_candidate b k)}
      = numbered_candidate b -` (set (map alb_slug (albums conn)) \<union> fset slug_cache)"
    by (auto simp: occupied_def slug_exists_def)
  ultimately show ?thesis by simp
qed

text \<open>
  The probing loop of \<open>ensure_unique_slug\<close>. Its state is the counter and the
  candidate; it returns both when the candidate is free.
\<close>

definition probe_measure :: "store \<times> string \<times> string fset \<times> nat \<times> string \<Rightarrow> nat" where
  "probe_measure = (\<lambda>(conn, base_slug, slug_cache, counter, candidate).
     2 * card {k. counter < k \<and> occupied conn slug_cache (numbered_candidate base_slug k)}
     + (if occupied conn slug_cache candidate then 1 else 0))"

function slug_probe :: "store \<Rightarrow> string \<Rightarrow> string fset \<Rightarrow> nat \<Rightarrow> string \<Rightarrow> nat \<times> string" where
  "slug_probe conn base_slug slug_cache counter candidate =
     (if \<not> slug_exists conn candidate \<and> candidate |\<notin>| slug_cache then (counter, candidate)
      else slug_probe conn base_slug slug_cache (counter + 1)
             (numbered_candidate base_slug (counter + 1)))"
  by pat_completeness auto
termination
proof (relation "measure probe_measure")
  show "wf (measure probe_measure)" by simp
next
  fix conn :: store and base_slug :: string and slug_cache :: "string fset"
    and counter :: nat and candidate :: string
  assume "\<not> (\<not> slug_exists conn candidate \<and> candidate |\<notin>| slug_cache)"
  then have occ: "occupied conn slug_cache candidate"
    by (auto simp: occupied_def)
  let ?A = "{k. counter < k \<and> occupied conn slug_cache (numbered_candidate base_slug k)}"
  let ?B = "{k. counter + 1 < k \<and> occupied conn slug_cache (numbered_candidate base_slug k)}"
  have fin: "finite ?A"
    by (rule finite_subset [OF _ finite_occupied_numbers [of conn slug_cache base_slug]]) auto
  have sub: "?B \<subseteq> ?A" by auto
  show "((conn, base_slug, slug_cache, counter + 1, numbered_candidate base_slug (counter + 1)),
         (conn, base_slug, slug_cache, counter, candidate)) \<in> measure probe_measure"
  proof (cases "occupied conn slug_cache (numbered_candidate base_slug (counter + 1))")
    case True
    then have "counter + 1 \<in> ?A" "counter + 1 \<notin> ?B" by auto
    with sub have "?B \<subset> ?A" by blast
    with fin have "card ?B < card ?A" by (rule psubset_card_mono)
    with occ True show ?thesis by (simp add: probe_measure_def)
  next
    case False
    from fin sub have "card ?B \<le> card ?A" by (rule card_mono)
    with occ False show ?thesis by (simp add: probe_measure_def)
  qed
qed

declare slug_probe.simps [simp del]

definition ensure_unique_slug ::
  "store \<Rightarrow> string \<Rightarrow> string \<Rightarrow> string fset \<Rightarrow> string \<times> string fset" where
  "ensure_unique_slug conn base_slug album_path slug_cache =
     (let candidate = snd (slug_probe conn base_slug slug_cache 1
                             (first_candidate base_slug album_path slug_cache))
      in (candidate, finsert candidate slug_cache))"

text \<open>The candidate the loop holds while its counter is \<open>k\<close>.\<close>

definition slug_candidate :: "string \<Rightarrow> string \<Rightarrow> string fset \<Rightarrow> nat \<Rightarrow> string" where
  "slug_candidate base_slug album_path slug_cache k =
     (if k = 1 then first_candidate base_slug album_path slug_cache
      else numbered_candidate base_slug k)"

subsection \<open>The filesystem\<close>

text \<open>
  A directory lists its entries in the order \<^verbatim>\<open>os.walk\<close> reports them. A file
  carries the size its \<^verbatim>\<open>stat()\<close> reports, or \<open>None\<close> when \<^verbatim>\<open>stat()\<close> raises
  \<^verbatim>\<open>OSError\<close> (a dangling symbolic link, for instance). Symbolic links to
  directories are not modelled, so resolving a path is lexical.
\<close>

datatype fsnode = File string "nat option" | Dir string "fsnode list"

record fs_file =
  f_path :: "string list"
  f_stat :: "nat option"

definition hidden :: "string \<Rightarrow> bool" where
  "hidden name = startswith name ''.''"

text \<open>
  \<open>iter_files\<close>: the files of a directory first, then the files of its kept
  sub-directories, in order; \<open>root\<close> is the path of the directory.
\<close>

fun iter_files :: "bool \<Rightarrow> string list \<Rightarrow> fsnode list \<Rightarrow> fs_file list" where
  "iter_files include_hidden root entries =
     concat (map (\<lambda>e. case e of
                          File name st \<Rightarrow>
                            if \<not> include_hidden \<and> hidden name then []
                            else [\<lparr>f_path = root @ [name], f_stat = st\<rparr>]
                        | Dir d sub \<Rightarrow> []) entries)
     @ concat (map (\<lambda>e. case e of
                            File name st \<Rightarrow> []
                          | Dir d sub \<Rightarrow>
                              if d \<in> IGNORED_DIR_NAMES then []
                              else if \<not> include_hidden \<and> hidden d then []
                              else iter_files include_hidden (root @ [d]) sub) entries)"

declare iter_files.simps [simp del]

text \<open>The entries of the directory at a path, if the path exists and is a directory.\<close>

fun lookup_dir :: "fsnode list \<Rightarrow> string list \<Rightarrow> fsnode list option" where
  "lookup_dir entries [] = Some entries"
| "lookup_dir [] (c # cs) = None"
| "lookup_dir (Dir d sub # es) (c # cs) =
     (if d = c then lookup_dir sub cs else lookup_dir es (c # cs))"
| "lookup_dir (File n st # es) (c # cs) = lookup_dir es (c # cs)"

text \<open>\<^verbatim>\<open>(uploads_dir / subdir).resolve()\<close>, where \<open>uploads_dir\<close> is resolved already.\<close>

definition resolve_subdir :: "string list \<Rightarrow> string \<Rightarrow> string list" where
  "resolve_subdir uploads_dir subdir =
     fold (\<lambda>seg acc. if seg = [] \<or> seg = ''.'' then acc
                      else if seg = ''..'' then butlast acc
                      else acc @ [seg])
          (py_split CHR ''/'' subdir)
          (if startswith subdir ''/'' then [] else uploads_dir)"

text \<open>\<^verbatim>\<open>path.relative_to(base).as_posix()\<close>.\<close>

definition normalize_rel_key :: "string list \<Rightarrow> string list \<Rightarrow> error + string" where
  "normalize_rel_key path base =
     (if take (length base) path = base
      then Inr (if drop (length base) path = [] then ''.''
                else py_join ''/'' (drop (length base) path))
      else Inl ValueError)"

subsection \<open>Catalog snapshot loader\<close>

record existing_file_row =
  ex_id :: string
  ex_album_id :: "string option"
  ex_original_name :: string
  ex_size :: int
  ex_mime_type :: string

text \<open>Python truthiness of an optional string: neither \<open>None\<close> nor empty.\<close>

definition truthy :: "string option \<Rightarrow> bool" where
  "truthy x = (case x of None \<Rightarrow> False | Some s \<Rightarrow> s \<noteq> [])"

definition snapshot_row :: "file_row \<Rightarrow> existing_file_row" where
  "snapshot_row r =
     \<lparr>ex_id = file_id r,
      ex_album_id = (if truthy (album_id r) then album_id r else None),
      ex_original_name = original_name r,
      ex_size = file_size r,
      ex_mime_type = mime_type r\<rparr>"

definition load_album_cache :: "store \<Rightarrow> (string \<rightharpoonup> string)" where
  "load_album_cache conn =
     fold (\<lambda>r m. if alb_path r \<noteq> [] then m(alb_path r \<mapsto> alb_id r) else m) (albums conn) Map.empty"

definition load_slug_cache :: "store \<Rightarrow> string fset" where
  "load_slug_cache conn =
     fold (\<lambda>r s. if alb_slug r \<noteq> [] then finsert (alb_slug r) s else s) (albums conn) {||}"

definition load_album_ids :: "store \<Rightarrow> string set" where
  "load_album_ids conn =
     fold (\<lambda>r s. if alb_id r \<noteq> [] then insert (alb_id r) s else s) (albums conn) {}"

definition load_existing_keys :: "store \<Rightarrow> string set" where
  "load_existing_keys conn = fold (\<lambda>r s. insert (file_key r) s) (files conn) {}"

definition load_existing_files :: "store \<Rightarrow> (string \<rightharpoonup> existing_file_row)" where
  "load_existing_files conn =
     fold (\<lambda>r m. m(file_key r \<mapsto> snapshot_row r)) (files conn) Map.empty"

definition load_existing_state ::
  "store \<Rightarrow> (string \<rightharpoonup> string) \<times> string fset \<times> string set
            \<times> (string \<rightharpoonup> existing_file_row) \<times> string set" where
  "load_existing_state conn =
     (load_album_cache conn, load_slug_cache conn, load_existing_keys conn,
      load_existing_files conn, load_album_ids conn)"

subsection \<open>Container hierarchy builder\<close>

text \<open>
  The context of a run. Besides the fields of \<^verbatim>\<open>RecoveryContext\<close> it counts the
  calls made so far to \<^verbatim>\<open>uuid.uuid4()\<close> and to \<^verbatim>\<open>now_iso()\<close>, which select the
  next identifier and clock reading of the environment.
\<close>

record recovery_context =
  conn :: store
  dry_run :: bool
  public_albums :: bool
  album_cache :: "string \<rightharpoonup> string"
  slug_cache :: "string fset"
  album_ids :: "string set"
  created_albums :: nat
  uuid_calls :: nat
  clock_calls :: nat

definition normalize_album_path :: "string \<Rightarrow> string" where
  "normalize_album_path album_path =
     ''/'' @ py_join ''/'' (filter (\<lambda>p. p \<noteq> []) (py_split CHR ''/'' (py_strip ''/'' album_path)))"

text \<open>
  The body of the loop for a partial path without a container: a new identifier, a
  free slug, the \<^verbatim>\<open>INSERT\<close> unless the run is a preview, and the registration in the
  caches. An \<^verbatim>\<open>INSERT\<close> that raises ends the call.
\<close>

definition create_album ::
  "world \<Rightarrow> recovery_context \<Rightarrow> string option \<Rightarrow> string \<Rightarrow> string \<Rightarrow> error + recovery_context"
where
  "create_album w ctx parent_id current segment =
     (let new_id = uuid4 w (uuid_calls ctx);
          (slug, slug_cache') =
             ensure_unique_slug (conn ctx) (slugify segment) current (slug_cache ctx);
          ts = now_iso w (clock_calls ctx)
      in case (if dry_run ctx then Inr (conn ctx)
               else insert_album (conn ctx)
                      \<lparr>alb_id = new_id, alb_name = segment, alb_slug = slug,
                       alb_parent_id = parent_id, alb_password = None,
                       alb_is_public = Some (if public_albums ctx then 1 else 0),
                       alb_cover_file_id = None, alb_path = current,
                       alb_created_at = ts, alb_updated_at = ts\<rparr>) of
           Inl exc \<Rightarrow> Inl exc
         | Inr conn' \<Rightarrow>
             Inr (ctx\<lparr>conn := conn',
                      album_cache := (album_cache ctx)(current \<mapsto> new_id),
                      slug_cache := slug_cache',
                      album_ids := insert new_id (album_ids ctx),
                      created_albums := created_albums ctx + 1,
                      uuid_calls := uuid_calls ctx + 1,
                      clock_calls := clock_calls ctx + 1\<rparr>))"

text \<open>
  The loop over the segments of the normalized path; \<open>parent_id\<close> and \<open>current\<close>
  are its two local variables.
\<close>

fun album_chain_loop ::
  "world \<Rightarrow> recovery_context \<Rightarrow> string option \<Rightarrow> string \<Rightarrow> string list \<Rightarrow> error + recovery_context"
where
  "album_chain_loop w ctx parent_id current [] = Inr ctx"
| "album_chain_loop w ctx parent_id current (segment # rest) =
     (let current' = (if current \<noteq> [] then current @ ''/'' @ segment else ''/'' @ segment) in
      if truthy (album_cache ctx current')
      then album_chain_loop w ctx (album_cache ctx current') current' rest
      else (case create_album w ctx parent_id current' segment of
              Inl exc \<Rightarrow> Inl exc
            | Inr ctx' \<Rightarrow> album_chain_loop w ctx' (album_cache ctx' current') current' rest))"

definition ensure_album_chain ::
  "world \<Rightarrow> recovery_context \<Rightarrow> string \<Rightarrow> error + (recovery_context \<times> string option)" where
  "ensure_album_chain w ctx album_path =
     (if album_path = [] \<or> album_path = ''/'' then Inr (ctx, None)
      else
        (let normalized = normalize_album_path album_path in
         if album_cache ctx normalized \<noteq> None then Inr (ctx, album_cache ctx normalized)
         else (case album_chain_loop w ctx None []
                      (py_split CHR ''/'' (py_strip ''/'' normalized)) of
                 Inl e \<Rightarrow> Inl e
               | Inr ctx' \<Rightarrow> Inr (ctx', album_cache ctx' normalized))))"

subsection \<open>Per-file repair logic\<close>

definition repair_existing_file ::
  "world \<Rightarrow> recovery_context \<Rightarrow> existing_file_row \<Rightarrow> fs_file \<Rightarrow> string \<Rightarrow> string option
     \<Rightarrow> error + (recovery_context \<times> bool)" where
  "repair_existing_file w ctx existing full_path rel_key target_album_id =
     (let target = (if target_album_id = None then ex_album_id existing else target_album_id) in
      case f_stat full_path of
        None \<Rightarrow> Inl OSError
      | Some st_size \<Rightarrow>
          (let expected_size = int st_size;
               expected_name = path_name (f_path full_path);
               expected_mime = guess_mime w (f_path full_path);
               existing_album_id_valid =
                 (ex_album_id existing = None \<or> the (ex_album_id existing) \<in> album_ids ctx);
               needs_update =
                 (ex_album_id existing \<noteq> target
                  \<or> ex_size existing \<noteq> expected_size
                  \<or> ex_original_name existing \<noteq> expected_name
                  \<or> \<not> startswith (ex_mime_type existing) ''image/''
                  \<or> (ex_mime_type existing \<noteq> [] \<and> ex_mime_type existing \<noteq> expected_mime)
                  \<or> (truthy (ex_album_id existing) \<and> \<not> existing_album_id_valid))
           in if \<not> needs_update then Inr (ctx, False)
              else if dry_run ctx then Inr (ctx, True)
              else Inr (ctx\<lparr>conn := update_file (conn ctx) target expected_name expected_size
                                       expected_mime (now_iso w (clock_calls ctx)) (ex_id existing),
                            clock_calls := clock_calls ctx + 1\<rparr>, True)))"

subsection \<open>Reconciliation driver\<close>

text \<open>
  The command line after parsing: \<open>arg_uploads\<close> is the resolved uploads directory,
  as the list of its components.
\<close>

record args =
  arg_uploads :: "string list"
  arg_subdir :: string
  arg_album_mode :: string
  arg_public_albums :: bool
  arg_include_hidden :: bool
  arg_repair_existing :: bool
  arg_dry_run :: bool

text \<open>The variables of the walk: the context, the known keys and the counters.\<close>

record run_state =
  ctx :: recovery_context
  existing_keys :: "string set"
  scanned :: nat
  skipped_non_image :: nat
  skipped_existing :: nat
  repaired_existing :: nat
  inserted_files :: nat
  failed_files :: nat

text \<open>The branch of the loop body for a key that is already known.\<close>

definition handle_existing ::
  "world \<Rightarrow> args \<Rightarrow> (string \<rightharpoonup> existing_file_row) \<Rightarrow> run_state \<Rightarrow> fs_file \<Rightarrow> string
     \<Rightarrow> string option \<Rightarrow> run_state" where
  "handle_existing w a existing_files rs full_path rel_key target_album_id =
     (let rs' = rs\<lparr>skipped_existing := skipped_existing rs + 1\<rparr> in
      if arg_repair_existing a then
        (case existing_files rel_key of
           None \<Rightarrow> rs'
         | Some existing \<Rightarrow>
             (case repair_existing_file w (ctx rs') existing full_path rel_key target_album_id of
                Inl exc \<Rightarrow> rs'\<lparr>failed_files := failed_files rs' + 1\<rparr>
              | Inr (ctx', repaired) \<Rightarrow>
                  if repaired
                  then rs'\<lparr>ctx := ctx', repaired_existing := repaired_existing rs' + 1\<rparr>
                  else rs'\<lparr>ctx := ctx'\<rparr>))
      else rs')"

text \<open>The branch for a new key: the body of the second \<^verbatim>\<open>try\<close>.\<close>

definition insert_new ::
  "world \<Rightarrow> run_state \<Rightarrow> fs_file \<Rightarrow> string \<Rightarrow> string option \<Rightarrow> run_state" where
  "insert_new w rs full_path rel_key target_album_id =
     (case f_stat full_path of
        None \<Rightarrow> rs\<lparr>failed_files := failed_files rs + 1\<rparr>
      | Some st_size \<Rightarrow>
          (let c = ctx rs;
               new_id = uuid4 w (uuid_calls c);
               ts = now_iso w (clock_calls c);
               mime = guess_mime w (f_path full_path);
               c' = c\<lparr>uuid_calls := uuid_calls c + 1, clock_calls := clock_calls c + 1\<rparr>
           in case (if dry_run c then Inr (conn c)
                    else insert_file (conn c)
                           \<lparr>file_id = new_id, file_key = rel_key,
                            original_name = path_name (f_path full_path),
                            file_size = int st_size, mime_type = mime,
                            width = None, height = None, thumbhash = None,
                            tags = Some ''[]'', caption = None, semantic_description = None,
                            aliases = Some ''[]'', annotation_updated_at = None,
                            exif_data = None, album_id = target_album_id,
                            created_at = ts, updated_at = ts\<rparr>) of
                Inl exc \<Rightarrow> rs\<lparr>ctx := c', failed_files := failed_files rs + 1\<rparr>
              | Inr conn' \<Rightarrow>
                  rs\<lparr>ctx := c'\<lparr>conn := conn'\<rparr>,
                     existing_keys := insert rel_key (existing_keys rs),
                     inserted_files := inserted_files rs + 1\<rparr>))"

text \<open>The container of a decided path: none when no path is decided.\<close>

definition decided_album ::
  "world \<Rightarrow> recovery_context \<Rightarrow> string option \<Rightarrow> error + (recovery_context \<times> string option)" where
  "decided_album w c album_path =
     (if truthy album_path then ensure_album_chain w c (the album_path) else Inr (c, None))"

text \<open>
  The body of the walk for one file. \<open>Inl\<close> is an exception that leaves the loop:
  it is caught by the outer handler of \<open>recover\<close>.
\<close>

definition process_file ::
  "world \<Rightarrow> args \<Rightarrow> (string \<rightharpoonup> existing_file_row) \<Rightarrow> run_state \<Rightarrow> fs_file
     \<Rightarrow> error + run_state" where
  "process_file w a existing_files rs full_path =
     (let rs1 = rs\<lparr>scanned := scanned rs + 1\<rparr> in
      case normalize_rel_key (f_path full_path) (arg_uploads a) of
        Inl exc \<Rightarrow> Inl exc
      | Inr rel_key \<Rightarrow>
          if \<not> is_image_file w (f_path full_path)
          then Inr (rs1\<lparr>skipped_non_image := skipped_non_image rs1 + 1\<rparr>)
          else
            (case decide_album_path rel_key (arg_album_mode a) of
               Inl exc \<Rightarrow> Inl exc
             | Inr album_path \<Rightarrow>
                 (case decided_album w (ctx rs1) album_path of
                    Inl exc \<Rightarrow> Inl exc
                  | Inr (ctx', target_album_id) \<Rightarrow>
                      if rel_key \<in> existing_keys rs1
                      then Inr (handle_existing w a existing_files (rs1\<lparr>ctx := ctx'\<rparr>)
                                  full_path rel_key target_album_id)
                      else Inr (insert_new w (rs1\<lparr>ctx := ctx'\<rparr>)
                                  full_path rel_key target_album_id))))"

fun walk :: "world \<Rightarrow> args \<Rightarrow> (string \<rightharpoonup> existing_file_row) \<Rightarrow> run_state \<Rightarrow> fs_file list
               \<Rightarrow> error + run_state" where
  "walk w a existing_files rs [] = Inr rs"
| "walk w a existing_files rs (full_path # rest) =
     (case process_file w a existing_files rs full_path of
        Inl exc \<Rightarrow> Inl exc
      | Inr rs' \<Rightarrow> walk w a existing_files rs' rest)"

definition initial_state :: "args \<Rightarrow> store \<Rightarrow> run_state" where
  "initial_state a db =
     (case load_existing_state db of
        (cache, slugs, keys, existing_files, ids) \<Rightarrow>
          \<lparr>ctx = \<lparr>conn = db, dry_run = arg_dry_run a, public_albums = arg_public_albums a,
                  album_cache = cache, slug_cache = slugs, album_ids = ids,
                  created_albums = 0, uuid_calls = 0, clock_calls = 0\<rparr>,
           existing_keys = keys, scanned = 0, skipped_non_image = 0, skipped_existing = 0,
           repaired_existing = 0, inserted_files = 0, failed_files = 0\<rparr>)"

text \<open>
  The outcome of \<open>recover\<close>: the exit status, the store left behind (the initial
  one after a roll-back, a preview or a pre-flight failure), and the final variables
  of the walk, from which the summary is printed, when the walk completed.
\<close>

record run_result =
  exit_code :: int
  final_store :: store
  summary :: "run_state option"

definition scan_root :: "args \<Rightarrow> string list" where
  "scan_root a =
     (if arg_subdir a \<noteq> [] then resolve_subdir (arg_uploads a) (arg_subdir a)
      else arg_uploads a)"

definition recover :: "world \<Rightarrow> args \<Rightarrow> fsnode list \<Rightarrow> store \<Rightarrow> run_result" where
  "recover w a fs db =
     (if arg_subdir a \<noteq> [] \<and> \<not> startswith (abs_str (scan_root a)) (abs_str (arg_uploads a))
      then \<lparr>exit_code = 2, final_store = db, summary = None\<rparr>
      else if lookup_dir fs (arg_uploads a) = None
      then \<lparr>exit_code = 2, final_store = db, summary = None\<rparr>
      else
        (case lookup_dir fs (scan_root a) of
           None \<Rightarrow> \<lparr>exit_code = 2, final_store = db, summary = None\<rparr>
         | Some entries \<Rightarrow>
             (case walk w a (load_existing_files db) (initial_state a db)
                     (iter_files (arg_include_hidden a) (scan_root a) entries) of
                Inl exc \<Rightarrow> \<lparr>exit_code = 1, final_store = db, summary = None\<rparr>
              | Inr rs \<Rightarrow> \<lparr>exit_code = 0, final_store = conn (ctx rs), summary = Some rs\<rparr>)))"

subsection \<open>Sequences of runs and the uniqueness invariant\<close>

text \<open>
  A sequence of runs over one store: each run has its own environment, command line
  and filesystem, and starts from the store the previous run left.
\<close>

fun runs :: "(world \<times> args \<times> fsnode list) list \<Rightarrow> store \<Rightarrow> store" where
  "runs [] db = db"
| "runs ((w, a, fs) # rest) db = runs rest (final_store (recover w a fs db))"

text \<open>
  No two containers share a path, no two share a slug, and no container has the empty
  identifier (the identifiers of \<^verbatim>\<open>uuid4\<close> never are).
\<close>

definition store_ok :: "store \<Rightarrow> bool" where
  "store_ok db \<longleftrightarrow>
     distinct (map alb_path (albums db)) \<and> distinct (map alb_slug (albums db))
     \<and> (\<forall>r \<in> set (albums db). alb_id r \<noteq> [])"

definition uuid_nonempty :: "world \<Rightarrow> bool" where
  "uuid_nonempty w \<longleftrightarrow> (\<forall>k. uuid4 w k \<noteq> [])"

text \<open>The partial paths that gained a container between two contexts.\<close>

definition newly_cached :: "recovery_context \<Rightarrow> recovery_context \<Rightarrow> string set" where
  "newly_cached c0 c = {P. truthy (album_cache c P) \<and> \<not> truthy (album_cache c0 P)}"

text \<open>The files a run walks over, in order.\<close>

definition walked_files :: "args \<Rightarrow> fsnode list \<Rightarrow> fs_file list" where
  "walked_files a fs =
     (case lookup_dir fs (scan_root a) of
        None \<Rightarrow> []
      | Some entries \<Rightarrow> iter_files (arg_include_hidden a) (scan_root a) entries)"




subsection \<open>Example inputs\<close>

text \<open>
  A small environment, used where a theorem is instantiated: the \<open>k\<close>-th identifier
  is \<open>u\<close> followed by \<open>k\<close>, the \<open>k\<close>-th clock reading is \<open>t\<close> followed by \<open>k\<close>,
  and \<^verbatim>\<open>mimetypes\<close> knows no type.
\<close>

definition example_world :: world where
  "example_world =
     \<lparr>uuid4 = (\<lambda>k. ''u'' @ str_nat k), now_iso = (\<lambda>k. ''t'' @ str_nat k),
      guess_type = (\<lambda>p. None)\<rparr>"

definition empty_store :: store where
  "empty_store = \<lparr>albums = [], files = []\<rparr>"

text \<open>A catalogued item with annotations, whose container \<open>ghost\<close> does not exist.\<close>

definition example_file_row :: file_row where
  "example_file_row =
     \<lparr>file_id = ''f1'', file_key = ''2024/03/u.jpg'', original_name = ''u.jpg'',
      file_size = 5, mime_type = ''image/jpeg'', width = Some 640, height = Some 480,
      thumbhash = None, tags = Some ''[sea]'', caption = Some ''Sunset'',
      semantic_description = None, aliases = Some ''[]'', annotation_updated_at = Some ''t'',
      exif_data = None, album_id = Some ''ghost'', created_at = ''t'', updated_at = ''t''\<rparr>"

definition example_store :: store where
  "example_store = \<lparr>albums = [], files = [example_file_row]\<rparr>"

text \<open>The uploads directory \<open>/data/uploads\<close> and a sibling directory next to it.\<close>

definition example_fs :: "fsnode list" where
  "example_fs =
     [Dir ''data''
        [Dir ''uploads''
           [File ''x.jpg'' (Some 10),
            File ''notes.txt'' (Some 1),
            Dir ''vacation'' [File ''beach.jpg'' (Some 7), File ''dusk.png'' (Some 9)],
            Dir ''2024'' [Dir ''03'' [File ''u.jpg'' (Some 7)]]],
         Dir ''uploads2'' [File ''z.jpg'' (Some 1)]]]"

definition example_args :: "string \<Rightarrow> string \<Rightarrow> bool \<Rightarrow> bool \<Rightarrow> args" where
  "example_args subdir mode repair preview =
     \<lparr>arg_uploads = [''data'', ''uploads''], arg_subdir = subdir, arg_album_mode = mode,
      arg_public_albums = False, arg_include_hidden = False, arg_repair_existing = repair,
      arg_dry_run = preview\<rparr>"

text \<open>A context over that store in which no container is known, for a live run.\<close>

definition example_context :: recovery_context where
  "example_context =
     \<lparr>conn = example_store, dry_run = False, public_albums = False,
      album_cache = Map.empty, slug_cache = {||}, album_ids = {},
      created_albums = 0, uuid_calls = 0, clock_calls = 0\<rparr>"

definition example_file :: fs_file where
  "example_file = \<lparr>f_path = [''data'', ''uploads'', ''2024'', ''03'', ''u.jpg''], f_stat = Some 7\<rparr>"

text \<open>
  The catalog a live run in mode \<open>by-dir\<close> leaves for the example filesystem when it
  starts from the empty store.
\<close>

definition example_album :: "string \<Rightarrow> string \<Rightarrow> string option \<Rightarrow> string \<Rightarrow> string \<Rightarrow> album_row" where
  "example_album i name parent path ts =
     \<lparr>alb_id = i, alb_name = name, alb_slug = name, alb_parent_id = parent,
      alb_password = None, alb_is_public = Some 0, alb_cover_file_id = None,
      alb_path = path, alb_created_at = ts, alb_updated_at = ts\<rparr>"

definition example_item ::
  "string \<Rightarrow> string \<Rightarrow> string \<Rightarrow> int \<Rightarrow> string \<Rightarrow> string option \<Rightarrow> string \<Rightarrow> file_row" where
  "example_item i key name sz mime album ts =
     \<lparr>file_id = i, file_key = key, original_name = name, file_size = sz, mime_type = mime,
      width = None, height = None, thumbhash = None, tags = Some ''[]'', caption = None,
      semantic_description = None, aliases = Some ''[]'', annotation_updated_at = None,
      exif_data = None, album_id = album, created_at = ts, updated_at = ts\<rparr>"

definition example_catalog :: store where
  "example_catalog =
     \<lparr>albums =
        [example_album ''u1'' ''vacation'' None ''/vacation'' ''t1'',
         example_album ''u4'' ''2024'' None ''/2024'' ''t4'',
         example_album ''u5'' ''03'' (Some ''u4'') ''/2024/03'' ''t5''],
      files =
        [example_item ''u0'' ''x.jpg'' ''x.jpg'' 10 ''image/jpeg'' None ''t0'',
         example_item ''u2'' ''vacation/beach.jpg'' ''beach.jpg'' 7 ''image/jpeg'' (Some ''u1'') ''t2'',
         example_item ''u3'' ''vacation/dusk.png'' ''dusk.png'' 9 ''image/png'' (Some ''u1'') ''t3'',
         example_item ''u6'' ''2024/03/u.jpg'' ''u.jpg'' 7 ''image/jpeg'' (Some ''u5'') ''t6'']\<rparr>"

text \<open>An uploads directory whose only entry is a dangling symbolic link named like an image.\<close>

definition example_broken_fs :: "fsnode list" where
  "example_broken_fs = [Dir ''data'' [Dir ''uploads'' [File ''x.jpg'' None]]]"

text \<open>
  An uploads directory with two sub-directories whose names differ in punctuation
  only, so that both containers ask for the slug \<open>g\<close>.
\<close>

definition example_twin_fs :: "fsnode list" where
  "example_twin_fs =
     [Dir ''data''
        [Dir ''uploads''
           [Dir ''g!'' [File ''x.jpg'' (Some 1)],
            Dir ''g'' [File ''y.jpg'' (Some 2)]]]]"

text \<open>The context of a preview after the first of the two containers was created.\<close>

definition example_preview_context :: recovery_context where
  "example_preview_context =
     \<lparr>conn = empty_store, dry_run = True, public_albums = False,
      album_cache = [''/g!'' \<mapsto> ''u0''], slug_cache = {|''g''|}, album_ids = {''u0''},
      created_albums = 1, uuid_calls = 2, clock_calls = 2\<rparr>"

text \<open>
  An uploads directory with one sub-directory, whose name is \<open>a\<close>, a backslash,
  \<open>b\<close>.
\<close>

definition example_backslash_fs :: "fsnode list" where
  "example_backslash_fs =
     [Dir ''data''
        [Dir ''uploads''
           [Dir (CHR ''a'' # backslash # ''b'') [File ''x.jpg'' (Some 1)]]]]"

section \<open>Properties\<close>

subsection \<open>Facts about splitting and joining\<close>

lemma py_split_not_Nil: "py_split sep s \<noteq> []"
  by (induction s) (auto split: list.splits)

lemma py_split_sep_free: "sep \<notin> set s \<Longrightarrow> py_split sep s = [s]"
  by (induction s) auto

lemma py_split_append_sep:
  "sep \<notin> set x \<Longrightarrow> py_split sep (x @ sep # r) = x # py_split sep r"
  by (induction x) auto

lemma py_split_join:
  "segs \<noteq> [] \<Longrightarrow> \<forall>s \<in> set segs. sep \<notin> set s \<Longrightarrow> py_split sep (py_join [sep] segs) = segs"
proof (induction segs rule: induct_list012)
  case 1
  then show ?case by simp
next
  case (2 x)
  then show ?case by (simp add: py_split_sep_free)
next
  case (3 x y ys)
  then have "py_split sep (py_join [sep] (y # ys)) = y # ys" by simp
  moreover from 3 have "sep \<notin> set x" by simp
  ultimately show ?case by (simp add: py_split_append_sep)
qed

lemma py_join_hd:
  "segs \<noteq> [] \<Longrightarrow> hd segs \<noteq> [] \<Longrightarrow> py_join sep segs \<noteq> [] \<and> hd (py_join sep segs) = hd (hd segs)"
  by (induction segs rule: induct_list012) auto

lemma py_join_last:
  "segs \<noteq> [] \<Longrightarrow> last segs \<noteq> [] \<Longrightarrow> last (py_join sep segs) = last (last segs)"
proof (induction sep segs rule: py_join.induct)
  case (3 sep x y ys)
  have "py_join sep (y # ys) \<noteq> [] \<or> last (y # ys) = []"
    by (induction sep "y # ys" arbitrary: y ys rule: py_join.induct) auto
  with 3 show ?case by auto
qed auto

lemma py_join_Nil_iff:
  "\<forall>s \<in> set segs. s \<noteq> [] \<Longrightarrow> py_join sep segs = [] \<longleftrightarrow> segs = []"
  by (induction sep segs rule: py_join.induct) auto

lemma py_strip_id:
  assumes "s \<noteq> []" "hd s \<notin> set chars" "last s \<notin> set chars"
  shows "py_strip chars s = s"
proof -
  from assms have "dropWhile (\<lambda>c. c \<in> set chars) s = s"
    by (cases s) auto
  moreover from assms have "dropWhile (\<lambda>c. c \<in> set chars) (rev s) = rev s"
    by (cases "rev s") (auto simp: last_rev [symmetric] simp del: last_rev)
  ultimately show ?thesis by (simp add: py_strip_def)
qed

lemma set_py_join: "set (py_join sep segs) \<subseteq> set sep \<union> \<Union> (set ` set segs)"
  by (induction sep segs rule: py_join.induct) auto

lemma replace_char_id: "a \<notin> set s \<Longrightarrow> replace_char a b s = s"
  by (induction s) (auto simp: replace_char_def)

lemma py_join_append:
  "py_join sep (xs @ ys) =
     (if xs = [] then py_join sep ys else if ys = [] then py_join sep xs
      else py_join sep xs @ sep @ py_join sep ys)"
  by (induction sep xs rule: py_join.induct) (auto simp: neq_Nil_conv)

lemma py_split_elems_sep_free: "s \<in> set (py_split sep t) \<Longrightarrow> sep \<notin> set s"
proof (induction t arbitrary: s)
  case Nil
  then show ?case by simp
next
  case (Cons c t)
  then show ?case
    by (cases "py_split sep t") (auto split: if_splits)
qed

lemma py_strip_drop_first: "c \<in> set chars \<Longrightarrow> py_strip chars (c # s) = py_strip chars s"
  by (simp add: py_strip_def)

lemma join_segments_facts:
  assumes "xs \<noteq> []" and "\<forall>s \<in> set xs. s \<noteq> [] \<and> CHR ''/'' \<notin> set s"
  shows "py_split CHR ''/'' (py_join ''/'' xs) = xs"
    and "py_strip ''/'' (''/'' @ py_join ''/'' xs) = py_join ''/'' xs"
proof -
  from assms show "py_split CHR ''/'' (py_join ''/'' xs) = xs"
    using py_split_join [of xs "CHR ''/''"] by simp
  from assms have h: "hd xs \<noteq> []" "last xs \<noteq> []" by simp_all
  with assms(1) have ne: "py_join ''/'' xs \<noteq> []"
    using py_join_hd [of xs "''/''"] by simp
  from assms h have "hd (hd xs) \<in> set (hd xs)" "last (last xs) \<in> set (last xs)"
    by simp_all
  moreover from assms have "CHR ''/'' \<notin> set (hd xs)" "CHR ''/'' \<notin> set (last xs)"
    by simp_all
  ultimately have "hd (hd xs) \<noteq> CHR ''/''" "last (last xs) \<noteq> CHR ''/''"
    by metis+
  with assms(1) h have "hd (py_join ''/'' xs) \<noteq> CHR ''/''" "last (py_join ''/'' xs) \<noteq> CHR ''/''"
    using py_join_hd [of xs "''/''"] py_join_last [of xs "''/''"] by simp_all
  with ne have "py_strip ''/'' (py_join ''/'' xs) = py_join ''/'' xs"
    by (intro py_strip_id) simp_all
  then show "py_strip ''/'' (''/'' @ py_join ''/'' xs) = py_join ''/'' xs"
    by (simp add: py_strip_drop_first)
qed

subsection \<open>The repair of an existing row\<close>

lemma repair_cases:
  assumes "repair_existing_file w c existing full_path rel_key target = Inr (c', repaired)"
  shows "(\<not> repaired \<and> c' = c) \<or> (repaired \<and> dry_run c \<and> c' = c) \<or>
         (repaired \<and> \<not> dry_run c \<and> f_stat full_path \<noteq> None \<and>
          c' = c\<lparr>conn := update_file (conn c)
                            (if target = None then ex_album_id existing else target)
                            (path_name (f_path full_path)) (int (the (f_stat full_path)))
                            (guess_mime w (f_path full_path)) (now_iso w (clock_calls c))
                            (ex_id existing),
                  clock_calls := clock_calls c + 1\<rparr>)"
  using assms
  by (auto simp: repair_existing_file_def Let_def split: option.splits if_splits)

lemma update_file_frame:
  "albums (update_file db al nm sz mt ts fid) = albums db"
  "length (files (update_file db al nm sz mt ts fid)) = length (files db)"
  "map file_id (files (update_file db al nm sz mt ts fid)) = map file_id (files db)"
  "map file_key (files (update_file db al nm sz mt ts fid)) = map file_key (files db)"
  "map width (files (update_file db al nm sz mt ts fid)) = map width (files db)"
  "map height (files (update_file db al nm sz mt ts fid)) = map height (files db)"
  "map thumbhash (files (update_file db al nm sz mt ts fid)) = map thumbhash (files db)"
  "map tags (files (update_file db al nm sz mt ts fid)) = map tags (files db)"
  "map caption (files (update_file db al nm sz mt ts fid)) = map caption (files db)"
  "map semantic_description (files (update_file db al nm sz mt ts fid)) = map semantic_description (files db)"
  "map aliases (files (update_file db al nm sz mt ts fid)) = map aliases (files db)"
  "map annotation_updated_at (files (update_file db al nm sz mt ts fid)) = map annotation_updated_at (files db)"
  "map exif_data (files (update_file db al nm sz mt ts fid)) = map exif_data (files db)"
  "map created_at (files (update_file db al nm sz mt ts fid)) = map created_at (files db)"
  by (simp_all add: update_file_def comp_def)

subsection \<open>The probing loop\<close>

lemma slug_probe_spec:
  "slug_probe db b S c cand = (n, s) \<Longrightarrow>
     \<not> occupied db S s \<and>
     ((n = c \<and> s = cand) \<or>
      (c < n \<and> s = numbered_candidate b n \<and> occupied db S cand \<and>
       (\<forall>k. c < k \<and> k < n \<longrightarrow> occupied db S (numbered_candidate b k))))"
proof (induction db b S c cand arbitrary: n s rule: slug_probe.induct)
  case (1 db b S c cand)
  show ?case
  proof (cases "\<not> slug_exists db cand \<and> cand |\<notin>| S")
    case True
    with "1.prems" show ?thesis
      by (auto simp: slug_probe.simps [of db b S c cand] occupied_def)
  next
    case False
    with "1.prems" have r: "slug_probe db b S (c + 1) (numbered_candidate b (c + 1)) = (n, s)"
      by (simp add: slug_probe.simps [of db b S c cand])
    from False have occ: "occupied db S cand" by (auto simp: occupied_def)
    from "1.IH" [OF False r] have
      free: "\<not> occupied db S s" and
      alt: "(n = c + 1 \<and> s = numbered_candidate b (c + 1)) \<or>
       (c + 1 < n \<and> s = numbered_candidate b n \<and> occupied db S (numbered_candidate b (c + 1)) \<and>
        (\<forall>k. c + 1 < k \<and> k < n \<longrightarrow> occupied db S (numbered_candidate b k)))"
      by simp_all
    from alt have "c < n" "s = numbered_candidate b n" by auto
    moreover have "\<forall>k. c < k \<and> k < n \<longrightarrow> occupied db S (numbered_candidate b k)"
    proof (intro allI impI)
      fix k assume k: "c < k \<and> k < n"
      show "occupied db S (numbered_candidate b k)"
      proof (cases "k = c + 1")
        case True
        with k alt show ?thesis by auto
      next
        case False
        with k alt show ?thesis by auto
      qed
    qed
    ultimately show ?thesis using free occ by simp
  qed
qed

lemma numbered_candidate_not_base: "numbered_candidate b k \<noteq> b"
  by (simp add: numbered_candidate_def)

lemma slug_probe_bound:
  assumes "slug_probe db b S 1 (first_candidate b p S) = (n, s)"
  shows "n \<le> card (set (map alb_slug (albums db)) \<union> fset S) + 1"
proof (cases "n = 1")
  case True
  then show ?thesis by simp
next
  case False
  let ?O = "set (map alb_slug (albums db)) \<union> fset S"
  from slug_probe_spec [OF assms] False have
    n: "1 < n" and occ: "occupied db S (first_candidate b p S)" and
    run: "\<forall>k. 1 < k \<and> k < n \<longrightarrow> occupied db S (numbered_candidate b k)"
    by auto
  have base: "b \<in> ?O"
    using occ by (auto simp: first_candidate_def occupied_def slug_exists_def split: if_splits)
  have img: "numbered_candidate b ` {2..<n} \<subseteq> ?O"
  proof
    fix x assume "x \<in> numbered_candidate b ` {2..<n}"
    then obtain k where k: "x = numbered_candidate b k" "1 < k" "k < n" by auto
    with run have "occupied db S (numbered_candidate b k)" by simp
    with k show "x \<in> ?O" by (auto simp: occupied_def slug_exists_def)
  qed
  have "inj_on (numbered_candidate b) {2..<n}"
    by (rule inj_onI) (rule numbered_candidate_inj)
  then have "card (numbered_candidate b ` {2..<n}) = n - 2"
    by (simp add: card_image)
  moreover have "b \<notin> numbered_candidate b ` {2..<n}"
  proof
    assume "b \<in> numbered_candidate b ` {2..<n}"
    then obtain k where "b = numbered_candidate b k" by auto
    then show False using numbered_candidate_not_base [of b k] by simp
  qed
  ultimately have "card (insert b (numbered_candidate b ` {2..<n})) = n - 1"
    using n by simp
  moreover have "card (insert b (numbered_candidate b ` {2..<n})) \<le> card ?O"
    using base img by (intro card_mono) auto
  ultimately show ?thesis by simp
qed


lemma ensure_unique_slug_props:
  assumes "ensure_unique_slug db b p S = (s, S')"
  shows "\<not> slug_exists db s" and "s |\<notin>| S" and "S' = finsert s S"
proof -
  obtain n where r: "slug_probe db b S 1 (first_candidate b p S) = (n, s)"
    using assms by (cases "slug_probe db b S 1 (first_candidate b p S)")
      (simp add: ensure_unique_slug_def)
  from slug_probe_spec [OF r] show "\<not> slug_exists db s" "s |\<notin>| S"
    by (auto simp: occupied_def)
  from assms r show "S' = finsert s S"
    by (simp add: ensure_unique_slug_def)
qed

subsection \<open>Unfolding the model on concrete inputs\<close>

lemmas eval_defs =
  recover_def scan_root_def example_args_def example_fs_def example_store_def example_file_row_def
  example_world_def empty_store_def example_broken_fs_def example_twin_fs_def example_backslash_fs_def walked_files_def example_catalog_def example_album_def example_item_def
  abs_str_def startswith_def resolve_subdir_def initial_state_def load_existing_state_def
  load_album_cache_def load_slug_cache_def load_album_ids_def load_existing_keys_def
  load_existing_files_def snapshot_row_def truthy_def iter_files.simps hidden_def
  IGNORED_DIR_NAMES_def ALLOWED_EXTENSIONS_def process_file_def normalize_rel_key_def
  is_image_file_def is_image_mime_def path_suffix_def path_name_def py_lower_def lower_char_def
  in_range_def decide_album_path_def path_parent_str_def path_str_def path_root_def
  path_parts_def replace_char_def backslash_def py_strip_def looks_like_sharded_upload_def
  is_digit_def decided_album_def ensure_album_chain_def create_album_def normalize_album_path_def handle_existing_def
  insert_new_def repair_existing_file_def guess_mime_def fallback_map_def update_file_def
  insert_file_def insert_album_def ensure_unique_slug_def slug_probe.simps first_candidate_def
  numbered_candidate_def slug_exists_def slugify_def py_strip_space_def is_space_def is_word_def
  str_nat.simps digit_char_def Let_def

subsection \<open>A digest that is a decimal numeral\<close>

lemma sha1_hex6_g: "sha1_hex6 ''/g'' = ''896568''"
  by (simp add: sha1_hex6_def sha1_def sha1_pad_def be64_def upt_rec sha1_block_def zeros.simps
      sha1_schedule.simps add32_def rotl32_def not32_def sha1_f_def sha1_k_def hex_digit_def)

lemma str_nat_896568: "str_nat 896568 = ''896568''"
  by (simp add: str_nat.simps digit_char_def)

subsection \<open>Creating a container\<close>

lemma create_album_elim:
  assumes "create_album w c parent P seg = Inr c1"
  obtains (created) slug row where
    "\<not> slug_exists (conn c) slug" "slug |\<notin>| slug_cache c"
    "alb_id row = uuid4 w (uuid_calls c)" "alb_slug row = slug" "alb_path row = P"
    "conn c1 = (if dry_run c then conn c else (conn c)\<lparr>albums := albums (conn c) @ [row]\<rparr>)"
    "\<not> dry_run c \<Longrightarrow> uuid4 w (uuid_calls c) \<notin> set (map alb_id (albums (conn c)))"
    "album_cache c1 = (album_cache c)(P \<mapsto> uuid4 w (uuid_calls c))"
    "slug_cache c1 = finsert slug (slug_cache c)"
    "album_ids c1 = insert (uuid4 w (uuid_calls c)) (album_ids c)"
    "created_albums c1 = created_albums c + 1"
    "uuid_calls c1 = uuid_calls c + 1"
    "dry_run c1 = dry_run c" "public_albums c1 = public_albums c"
proof -
  obtain slug S' where e: "ensure_unique_slug (conn c) (slugify seg) P (slug_cache c) = (slug, S')"
    by (cases "ensure_unique_slug (conn c) (slugify seg) P (slug_cache c)")
  note p = ensure_unique_slug_props [OF e]
  let ?row = "\<lparr>alb_id = uuid4 w (uuid_calls c), alb_name = seg, alb_slug = slug,
               alb_parent_id = parent, alb_password = None,
               alb_is_public = Some (if public_albums c then 1 else 0),
               alb_cover_file_id = None, alb_path = P,
               alb_created_at = now_iso w (clock_calls c),
               alb_updated_at = now_iso w (clock_calls c)\<rparr>"
  show thesis
  proof (rule created [of slug ?row])
    show "\<not> slug_exists (conn c) slug" "slug |\<notin>| slug_cache c" by (rule p)+
    show "alb_id ?row = uuid4 w (uuid_calls c)" "alb_slug ?row = slug" "alb_path ?row = P"
      by simp_all
    show "conn c1 = (if dry_run c then conn c else (conn c)\<lparr>albums := albums (conn c) @ [?row]\<rparr>)"
      using assms e by (auto simp: create_album_def Let_def insert_album_def split: if_splits)
    show "\<not> dry_run c \<Longrightarrow> uuid4 w (uuid_calls c) \<notin> set (map alb_id (albums (conn c)))"
      using assms e by (auto simp: create_album_def Let_def insert_album_def split: if_splits)
    show "album_cache c1 = (album_cache c)(P \<mapsto> uuid4 w (uuid_calls c))"
      "slug_cache c1 = finsert slug (slug_cache c)"
      "album_ids c1 = insert (uuid4 w (uuid_calls c)) (album_ids c)"
      "created_albums c1 = created_albums c + 1"
      "uuid_calls c1 = uuid_calls c + 1"
      "dry_run c1 = dry_run c" "public_albums c1 = public_albums c"
      using assms e p(3)
      by (auto simp: create_album_def Let_def insert_album_def split: if_splits sum.splits)
  qed
qed

subsection \<open>Invariants of the hierarchy builder\<close>

lemma album_chain_loop_invariant:
  assumes "album_chain_loop w c parent cur segs = Inr c'"
    and "I c"
    and step: "\<And>c parent P seg c1.
       I c \<Longrightarrow> \<not> truthy (album_cache c P) \<Longrightarrow> P \<noteq> [] \<Longrightarrow>
       create_album w c parent P seg = Inr c1 \<Longrightarrow> I c1"
  shows "I c'"
  using assms(1,2)
proof (induction segs arbitrary: c parent cur)
  case Nil
  then show ?case by simp
next
  case (Cons seg rest)
  let ?P = "if cur \<noteq> [] then cur @ ''/'' @ seg else ''/'' @ seg"
  have ne: "?P \<noteq> []" by simp
  show ?case
  proof (cases "truthy (album_cache c ?P)")
    case True
    with Cons.prems have "album_chain_loop w c (album_cache c ?P) ?P rest = Inr c'"
      by (simp add: Let_def)
    then show ?thesis using Cons.prems(2) by (rule Cons.IH)
  next
    case False
    with Cons.prems obtain c1 where
      c1: "create_album w c parent ?P seg = Inr c1" and
      r: "album_chain_loop w c1 (album_cache c1 ?P) ?P rest = Inr c'"
      by (auto simp: Let_def split: sum.splits)
    from Cons.prems(2) False ne c1 have "I c1" by (rule step)
    with r show ?thesis by (rule Cons.IH)
  qed
qed

lemma ensure_album_chain_invariant:
  assumes "ensure_album_chain w c p = Inr (c', r)"
    and "I c"
    and step: "\<And>c parent P seg c1.
       I c \<Longrightarrow> \<not> truthy (album_cache c P) \<Longrightarrow> P \<noteq> [] \<Longrightarrow>
       create_album w c parent P seg = Inr c1 \<Longrightarrow> I c1"
  shows "I c'"
proof (cases "p = [] \<or> p = ''/'' \<or> album_cache c (normalize_album_path p) \<noteq> None")
  case True
  with assms(1) have "c' = c"
    by (auto simp: ensure_album_chain_def Let_def split: if_splits)
  with assms(2) show ?thesis by simp
next
  case False
  with assms(1) have
    "album_chain_loop w c None [] (py_split CHR ''/'' (py_strip ''/'' (normalize_album_path p))) = Inr c'"
    by (auto simp: ensure_album_chain_def Let_def split: if_splits sum.splits)
  then show ?thesis using assms(2) step by (rule album_chain_loop_invariant)
qed

text \<open>The partial paths the loop visits, from the value of \<open>current\<close> on.\<close>

fun chain_paths :: "string \<Rightarrow> string list \<Rightarrow> string list" where
  "chain_paths cur [] = []"
| "chain_paths cur (seg # rest) =
     (if cur \<noteq> [] then cur @ ''/'' @ seg else ''/'' @ seg)
     # chain_paths (if cur \<noteq> [] then cur @ ''/'' @ seg else ''/'' @ seg) rest"

lemma truthy_not_None: "truthy x \<Longrightarrow> x \<noteq> None"
  by (cases x) (simp_all add: truthy_def)

lemma truthy_Some [simp]: "truthy (Some s) \<longleftrightarrow> s \<noteq> []"
  by (simp add: truthy_def)

lemma truthy_None [simp]: "\<not> truthy None"
  by (simp add: truthy_def)

lemma create_album_dom:
  assumes "create_album w c parent P seg = Inr c1" and "album_cache c Q \<noteq> None"
  shows "album_cache c1 Q \<noteq> None"
  using assms(1)
proof (cases rule: create_album_elim)
  case (created slug row)
  with assms(2) show ?thesis by simp
qed

lemma album_chain_loop_dom:
  assumes "album_chain_loop w c parent cur segs = Inr c'" and "album_cache c Q \<noteq> None"
  shows "album_cache c' Q \<noteq> None"
  using assms
proof (rule album_chain_loop_invariant [where I = "\<lambda>c. album_cache c Q \<noteq> None"])
  fix c parent P seg c1
  assume "album_cache c Q \<noteq> None" "create_album w c parent P seg = Inr c1"
  then show "album_cache c1 Q \<noteq> None" by (rule create_album_dom [rotated])
qed

lemma album_chain_loop_covers:
  assumes "album_chain_loop w c parent cur segs = Inr c'" and "Q \<in> set (chain_paths cur segs)"
  shows "album_cache c' Q \<noteq> None"
  using assms
proof (induction segs arbitrary: c parent cur)
  case Nil
  then show ?case by simp
next
  case (Cons seg rest)
  let ?P = "if cur \<noteq> [] then cur @ ''/'' @ seg else ''/'' @ seg"
  show ?case
  proof (cases "truthy (album_cache c ?P)")
    case True
    with Cons.prems have r: "album_chain_loop w c (album_cache c ?P) ?P rest = Inr c'"
      by (simp add: Let_def)
    show ?thesis
    proof (cases "Q = ?P")
      case Q: True
      from True have "album_cache c ?P \<noteq> None" by (rule truthy_not_None)
      with Q show ?thesis using album_chain_loop_dom [OF r] by simp
    next
      case False
      with Cons.prems(2) have "Q \<in> set (chain_paths ?P rest)" by simp
      with r show ?thesis by (rule Cons.IH)
    qed
  next
    case False
    with Cons.prems obtain c1 where
      c1: "create_album w c parent ?P seg = Inr c1" and
      r: "album_chain_loop w c1 (album_cache c1 ?P) ?P rest = Inr c'"
      by (auto simp: Let_def split: sum.splits)
    show ?thesis
    proof (cases "Q = ?P")
      case Q: True
      from c1 have "album_cache c1 ?P \<noteq> None"
        by (cases rule: create_album_elim) simp
      with Q show ?thesis using album_chain_loop_dom [OF r] by simp
    next
      case False
      with Cons.prems(2) have "Q \<in> set (chain_paths ?P rest)" by simp
      with r show ?thesis by (rule Cons.IH)
    qed
  qed
qed

lemma chain_paths_full:
  assumes "segs \<noteq> []"
  shows "''/'' @ py_join ''/'' (pre @ segs)
           \<in> set (chain_paths (if pre = [] then [] else ''/'' @ py_join ''/'' pre) segs)"
  using assms
proof (induction segs arbitrary: pre)
  case Nil
  then show ?case by simp
next
  case (Cons seg rest)
  let ?cur = "if pre = [] then [] else ''/'' @ py_join ''/'' pre"
  let ?P = "if ?cur \<noteq> [] then ?cur @ ''/'' @ seg else ''/'' @ seg"
  have P: "?P = ''/'' @ py_join ''/'' (pre @ [seg])"
    by (simp add: py_join_append)
  show ?case
  proof (cases "rest = []")
    case True
    with P show ?thesis by simp
  next
    case False
    then have "''/'' @ py_join ''/'' ((pre @ [seg]) @ rest)
        \<in> set (chain_paths (if pre @ [seg] = [] then [] else ''/'' @ py_join ''/'' (pre @ [seg])) rest)"
      by (rule Cons.IH)
    with P show ?thesis by simp
  qed
qed

lemma normalized_in_chain_paths:
  "normalize_album_path p
     \<in> set (chain_paths [] (py_split CHR ''/'' (py_strip ''/'' (normalize_album_path p))))"
proof -
  let ?xs = "filter (\<lambda>s. s \<noteq> []) (py_split CHR ''/'' (py_strip ''/'' p))"
  show ?thesis
  proof (cases "?xs = []")
    case True
    then have "normalize_album_path p = ''/''"
      by (simp add: normalize_album_path_def)
    then show ?thesis by (simp add: py_strip_def)
  next
    case False
    have el: "\<forall>s \<in> set ?xs. s \<noteq> [] \<and> CHR ''/'' \<notin> set s"
      by (auto dest: py_split_elems_sep_free)
    note f = join_segments_facts [OF False el]
    have n: "normalize_album_path p = ''/'' @ py_join ''/'' ?xs"
      by (simp add: normalize_album_path_def)
    from False have "''/'' @ py_join ''/'' ([] @ ?xs) \<in> set (chain_paths [] ?xs)"
      using chain_paths_full [of ?xs "[]"] by simp
    with n f show ?thesis by simp
  qed
qed

lemma ensure_album_chain_cached:
  assumes "ensure_album_chain w c p = Inr (c', r)" and "p \<noteq> []" and "p \<noteq> ''/''"
  shows "album_cache c' (normalize_album_path p) \<noteq> None"
    and "r = album_cache c' (normalize_album_path p)"
proof -
  show "album_cache c' (normalize_album_path p) \<noteq> None"
  proof (cases "album_cache c (normalize_album_path p) \<noteq> None")
    case True
    with assms show ?thesis
      by (auto simp: ensure_album_chain_def Let_def)
  next
    case False
    with assms have
      "album_chain_loop w c None [] (py_split CHR ''/'' (py_strip ''/'' (normalize_album_path p))) = Inr c'"
      by (auto simp: ensure_album_chain_def Let_def split: sum.splits)
    then show ?thesis
      using normalized_in_chain_paths by (rule album_chain_loop_covers)
  qed
  from assms show "r = album_cache c' (normalize_album_path p)"
    by (auto simp: ensure_album_chain_def Let_def split: if_splits sum.splits)
qed

lemma ensure_album_chain_hit:
  assumes "p \<noteq> []" and "p \<noteq> ''/''" and "album_cache c (normalize_album_path p) \<noteq> None"
  shows "ensure_album_chain w c p = Inr (c, album_cache c (normalize_album_path p))"
  using assms by (simp add: ensure_album_chain_def Let_def)

subsection \<open>The steps of the walk\<close>

lemma decided_album_invariant:
  assumes "decided_album w c ap = Inr (c', t)"
    and "I c"
    and step: "\<And>c parent P seg c1.
       I c \<Longrightarrow> \<not> truthy (album_cache c P) \<Longrightarrow> P \<noteq> [] \<Longrightarrow>
       create_album w c parent P seg = Inr c1 \<Longrightarrow> I c1"
  shows "I c'"
proof (cases "truthy ap")
  case True
  with assms(1) have "ensure_album_chain w c (the ap) = Inr (c', t)"
    by (simp add: decided_album_def)
  then show ?thesis using assms(2) step by (rule ensure_album_chain_invariant)
next
  case False
  with assms(1,2) show ?thesis by (simp add: decided_album_def)
qed

lemma process_file_elim:
  assumes "process_file w a ef rs f = Inr rs1"
  obtains
    (skip) rel where
      "normalize_rel_key (f_path f) (arg_uploads a) = Inr rel"
      "\<not> is_image_file w (f_path f)"
      "rs1 = rs\<lparr>scanned := scanned rs + 1, skipped_non_image := skipped_non_image rs + 1\<rparr>"
  | (known) rel ap c1 t where
      "normalize_rel_key (f_path f) (arg_uploads a) = Inr rel"
      "is_image_file w (f_path f)"
      "decide_album_path rel (arg_album_mode a) = Inr ap"
      "decided_album w (ctx rs) ap = Inr (c1, t)"
      "rel \<in> existing_keys rs"
      "rs1 = handle_existing w a ef (rs\<lparr>scanned := scanned rs + 1, ctx := c1\<rparr>) f rel t"
  | (new) rel ap c1 t where
      "normalize_rel_key (f_path f) (arg_uploads a) = Inr rel"
      "is_image_file w (f_path f)"
      "decide_album_path rel (arg_album_mode a) = Inr ap"
      "decided_album w (ctx rs) ap = Inr (c1, t)"
      "rel \<notin> existing_keys rs"
      "rs1 = insert_new w (rs\<lparr>scanned := scanned rs + 1, ctx := c1\<rparr>) f rel t"
proof (cases "normalize_rel_key (f_path f) (arg_uploads a)")
  case (Inl exc)
  with assms show thesis by (simp add: process_file_def)
next
  case rel: (Inr rel)
  show thesis
  proof (cases "is_image_file w (f_path f)")
    case False
    with assms rel show thesis
      by (intro skip [of rel]) (simp_all add: process_file_def)
  next
    case True
    show thesis
    proof (cases "decide_album_path rel (arg_album_mode a)")
      case (Inl exc)
      with assms rel True show thesis by (simp add: process_file_def)
    next
      case ap: (Inr ap)
      show thesis
      proof (cases "decided_album w (ctx rs) ap")
        case (Inl exc)
        with assms rel True ap show thesis by (simp add: process_file_def)
      next
        case (Inr res)
        obtain c1 t where res: "res = (c1, t)" by (cases res)
        show thesis
        proof (cases "rel \<in> existing_keys rs")
          case k: True
          with assms rel True ap Inr res show thesis
            by (intro known [of rel ap c1 t]) (simp_all add: process_file_def)
        next
          case k: False
          with assms rel True ap Inr res show thesis
            by (intro new [of rel ap c1 t]) (simp_all add: process_file_def)
        qed
      qed
    qed
  qed
qed

lemma walk_invariant:
  assumes "walk w a ef rs fl = Inr rs'"
    and "I rs"
    and step: "\<And>rs f rs1. I rs \<Longrightarrow> f \<in> set fl \<Longrightarrow> process_file w a ef rs f = Inr rs1 \<Longrightarrow> I rs1"
  shows "I rs'"
  using assms
proof (induction fl arbitrary: rs)
  case Nil
  then show ?case by simp
next
  case (Cons f rest)
  from Cons.prems(1) obtain rs1 where
    p: "process_file w a ef rs f = Inr rs1" and r: "walk w a ef rs1 rest = Inr rs'"
    by (auto split: sum.splits)
  from Cons.prems(2) p have "I rs1" by (intro Cons.prems(3) [of rs f rs1]) simp_all
  with r show ?case
    by (rule Cons.IH) (rule Cons.prems(3), simp_all)
qed

text \<open>What the two branches for an image file change.\<close>

lemma repair_memory:
  assumes "repair_existing_file w c ex f rel t = Inr (c', b)"
  shows "album_cache c' = album_cache c \<and> slug_cache c' = slug_cache c
       \<and> album_ids c' = album_ids c \<and> created_albums c' = created_albums c
       \<and> uuid_calls c' = uuid_calls c \<and> dry_run c' = dry_run c
       \<and> public_albums c' = public_albums c
       \<and> albums (conn c') = albums (conn c)
       \<and> map file_key (files (conn c')) = map file_key (files (conn c))
       \<and> map file_id (files (conn c')) = map file_id (files (conn c))
       \<and> (dry_run c \<longrightarrow> conn c' = conn c)"
  using repair_cases [OF assms]
  by (elim disjE conjE) (simp_all add: update_file_frame)

lemma handle_existing_props:
  assumes rs'_def: "rs' = handle_existing w a ef rs f rel t"
  shows "existing_keys rs' = existing_keys rs"
    and "scanned rs' = scanned rs"
    and "skipped_non_image rs' = skipped_non_image rs"
    and "skipped_existing rs' = skipped_existing rs + 1"
    and "inserted_files rs' = inserted_files rs"
    and "failed_files rs \<le> failed_files rs'"
    and "repaired_existing rs \<le> repaired_existing rs'"
    and "album_cache (ctx rs') = album_cache (ctx rs)"
    and "slug_cache (ctx rs') = slug_cache (ctx rs)"
    and "album_ids (ctx rs') = album_ids (ctx rs)"
    and "created_albums (ctx rs') = created_albums (ctx rs)"
    and "uuid_calls (ctx rs') = uuid_calls (ctx rs)"
    and "dry_run (ctx rs') = dry_run (ctx rs)"
    and "public_albums (ctx rs') = public_albums (ctx rs)"
    and "albums (conn (ctx rs')) = albums (conn (ctx rs))"
    and "map file_key (files (conn (ctx rs'))) = map file_key (files (conn (ctx rs)))"
    and "map file_id (files (conn (ctx rs'))) = map file_id (files (conn (ctx rs)))"
    and "dry_run (ctx rs) \<Longrightarrow> conn (ctx rs') = conn (ctx rs)"
proof -
  have all: "existing_keys rs' = existing_keys rs
     \<and> scanned rs' = scanned rs
     \<and> skipped_non_image rs' = skipped_non_image rs
     \<and> skipped_existing rs' = skipped_existing rs + 1
     \<and> inserted_files rs' = inserted_files rs
     \<and> failed_files rs \<le> failed_files rs'
     \<and> repaired_existing rs \<le> repaired_existing rs'
     \<and> album_cache (ctx rs') = album_cache (ctx rs)
     \<and> slug_cache (ctx rs') = slug_cache (ctx rs)
     \<and> album_ids (ctx rs') = album_ids (ctx rs)
     \<and> created_albums (ctx rs') = created_albums (ctx rs)
     \<and> uuid_calls (ctx rs') = uuid_calls (ctx rs)
     \<and> dry_run (ctx rs') = dry_run (ctx rs)
     \<and> public_albums (ctx rs') = public_albums (ctx rs)
     \<and> albums (conn (ctx rs')) = albums (conn (ctx rs))
     \<and> map file_key (files (conn (ctx rs'))) = map file_key (files (conn (ctx rs)))
     \<and> map file_id (files (conn (ctx rs'))) = map file_id (files (conn (ctx rs)))
     \<and> (dry_run (ctx rs) \<longrightarrow> conn (ctx rs') = conn (ctx rs))"
  proof (cases "arg_repair_existing a")
    case False
    then show ?thesis by (simp add: rs'_def handle_existing_def)
  next
    case True
    show ?thesis
    proof (cases "ef rel")
      case None
      with True show ?thesis by (simp add: rs'_def handle_existing_def)
    next
      case (Some ex)
      show ?thesis
      proof (cases "repair_existing_file w (ctx rs) ex f rel t")
        case (Inl exc)
        with True Some show ?thesis by (simp add: rs'_def handle_existing_def)
      next
        case (Inr res)
        obtain c' b where res: "res = (c', b)" by (cases res)
        with Inr have "repair_existing_file w (ctx rs) ex f rel t = Inr (c', b)" by simp
        from repair_memory [OF this] True Some Inr res show ?thesis
          by (cases b) (simp_all add: rs'_def handle_existing_def)
      qed
    qed
  qed
  from all show "existing_keys rs' = existing_keys rs"
    and "scanned rs' = scanned rs"
    and "skipped_non_image rs' = skipped_non_image rs"
    and "skipped_existing rs' = skipped_existing rs + 1"
    and "inserted_files rs' = inserted_files rs"
    and "failed_files rs \<le> failed_files rs'"
    and "repaired_existing rs \<le> repaired_existing rs'"
    and "album_cache (ctx rs') = album_cache (ctx rs)"
    and "slug_cache (ctx rs') = slug_cache (ctx rs)"
    and "album_ids (ctx rs') = album_ids (ctx rs)"
    and "created_albums (ctx rs') = created_albums (ctx rs)"
    and "uuid_calls (ctx rs') = uuid_calls (ctx rs)"
    and "dry_run (ctx rs') = dry_run (ctx rs)"
    and "public_albums (ctx rs') = public_albums (ctx rs)"
    and "albums (conn (ctx rs')) = albums (conn (ctx rs))"
    and "map file_key (files (conn (ctx rs'))) = map file_key (files (conn (ctx rs)))"
    and "map file_id (files (conn (ctx rs'))) = map file_id (files (conn (ctx rs)))"
    and "dry_run (ctx rs) \<Longrightarrow> conn (ctx rs') = conn (ctx rs)"
    by simp_all
qed


lemma insert_new_elim:
  obtains
    (unreadable) "f_stat f = None"
      "insert_new w rs f rel t = rs\<lparr>failed_files := failed_files rs + 1\<rparr>"
  | (preview) "f_stat f \<noteq> None" "dry_run (ctx rs)"
      "insert_new w rs f rel t =
         rs\<lparr>ctx := (ctx rs)\<lparr>uuid_calls := uuid_calls (ctx rs) + 1,
                              clock_calls := clock_calls (ctx rs) + 1\<rparr>,
            existing_keys := insert rel (existing_keys rs),
            inserted_files := inserted_files rs + 1\<rparr>"
  | (rejected) "f_stat f \<noteq> None" "\<not> dry_run (ctx rs)"
      "uuid4 w (uuid_calls (ctx rs)) \<in> set (map file_id (files (conn (ctx rs))))
       \<or> rel \<in> set (map file_key (files (conn (ctx rs))))"
      "insert_new w rs f rel t =
         rs\<lparr>ctx := (ctx rs)\<lparr>uuid_calls := uuid_calls (ctx rs) + 1,
                              clock_calls := clock_calls (ctx rs) + 1\<rparr>,
            failed_files := failed_files rs + 1\<rparr>"
  | (inserted) row where "f_stat f \<noteq> None" "\<not> dry_run (ctx rs)"
      "uuid4 w (uuid_calls (ctx rs)) \<notin> set (map file_id (files (conn (ctx rs))))"
      "rel \<notin> set (map file_key (files (conn (ctx rs))))"
      "file_id row = uuid4 w (uuid_calls (ctx rs))" "file_key row = rel" "album_id row = t"
      "insert_new w rs f rel t =
         rs\<lparr>ctx := (ctx rs)\<lparr>uuid_calls := uuid_calls (ctx rs) + 1,
                              clock_calls := clock_calls (ctx rs) + 1,
                              conn := (conn (ctx rs))\<lparr>files := files (conn (ctx rs)) @ [row]\<rparr>\<rparr>,
            existing_keys := insert rel (existing_keys rs),
            inserted_files := inserted_files rs + 1\<rparr>"
proof (cases "f_stat f")
  case None
  then show thesis by (intro unreadable) (simp_all add: insert_new_def)
next
  case (Some sz)
  show thesis
  proof (cases "dry_run (ctx rs)")
    case True
    with Some show thesis by (intro preview) (simp_all add: insert_new_def Let_def)
  next
    case False
    let ?row = "\<lparr>file_id = uuid4 w (uuid_calls (ctx rs)), file_key = rel,
                 original_name = path_name (f_path f),
                 file_size = int sz, mime_type = guess_mime w (f_path f),
                 width = None, height = None, thumbhash = None,
                 tags = Some ''[]'', caption = None, semantic_description = None,
                 aliases = Some ''[]'', annotation_updated_at = None,
                 exif_data = None, album_id = t,
                 created_at = now_iso w (clock_calls (ctx rs)),
                 updated_at = now_iso w (clock_calls (ctx rs))\<rparr>"
    show thesis
    proof (cases "uuid4 w (uuid_calls (ctx rs)) \<in> set (map file_id (files (conn (ctx rs))))
                  \<or> rel \<in> set (map file_key (files (conn (ctx rs))))")
      case True
      with Some False show thesis
        by (intro rejected) (simp_all add: insert_new_def Let_def insert_file_def)
    next
      case clear: False
      with Some False show thesis
        by (intro inserted [of ?row]) (simp_all add: insert_new_def Let_def insert_file_def)
    qed
  qed
qed

lemma insert_new_props:
  assumes rs'_def: "rs' = insert_new w rs f rel t"
  shows "existing_keys rs \<subseteq> existing_keys rs'"
    and "existing_keys rs' \<subseteq> insert rel (existing_keys rs)"
    and "scanned rs' = scanned rs"
    and "skipped_non_image rs' = skipped_non_image rs"
    and "skipped_existing rs' = skipped_existing rs"
    and "repaired_existing rs' = repaired_existing rs"
    and "inserted_files rs \<le> inserted_files rs'"
    and "failed_files rs \<le> failed_files rs'"
    and "album_cache (ctx rs') = album_cache (ctx rs)"
    and "slug_cache (ctx rs') = slug_cache (ctx rs)"
    and "album_ids (ctx rs') = album_ids (ctx rs)"
    and "created_albums (ctx rs') = created_albums (ctx rs)"
    and "dry_run (ctx rs') = dry_run (ctx rs)"
    and "public_albums (ctx rs') = public_albums (ctx rs)"
    and "albums (conn (ctx rs')) = albums (conn (ctx rs))"
    and "dry_run (ctx rs) \<Longrightarrow> conn (ctx rs') = conn (ctx rs)"
    and "failed_files rs' = failed_files rs \<Longrightarrow> rel \<in> existing_keys rs'"
proof -
  have "existing_keys rs \<subseteq> existing_keys rs'
    \<and> existing_keys rs' \<subseteq> insert rel (existing_keys rs)
    \<and> scanned rs' = scanned rs
    \<and> skipped_non_image rs' = skipped_non_image rs
    \<and> skipped_existing rs' = skipped_existing rs
    \<and> repaired_existing rs' = repaired_existing rs
    \<and> inserted_files rs \<le> inserted_files rs'
    \<and> failed_files rs \<le> failed_files rs'
    \<and> album_cache (ctx rs') = album_cache (ctx rs)
    \<and> slug_cache (ctx rs') = slug_cache (ctx rs)
    \<and> album_ids (ctx rs') = album_ids (ctx rs)
    \<and> created_albums (ctx rs') = created_albums (ctx rs)
    \<and> dry_run (ctx rs') = dry_run (ctx rs)
    \<and> public_albums (ctx rs') = public_albums (ctx rs)
    \<and> albums (conn (ctx rs')) = albums (conn (ctx rs))
    \<and> (dry_run (ctx rs) \<longrightarrow> conn (ctx rs') = conn (ctx rs))
    \<and> (failed_files rs' = failed_files rs \<longrightarrow> rel \<in> existing_keys rs')"
    by (cases rule: insert_new_elim [of f w rs rel t]) (auto simp: rs'_def)
  then show "existing_keys rs \<subseteq> existing_keys rs'"
    and "existing_keys rs' \<subseteq> insert rel (existing_keys rs)"
    and "scanned rs' = scanned rs"
    and "skipped_non_image rs' = skipped_non_image rs"
    and "skipped_existing rs' = skipped_existing rs"
    and "repaired_existing rs' = repaired_existing rs"
    and "inserted_files rs \<le> inserted_files rs'"
    and "failed_files rs \<le> failed_files rs'"
    and "album_cache (ctx rs') = album_cache (ctx rs)"
    and "slug_cache (ctx rs') = slug_cache (ctx rs)"
    and "album_ids (ctx rs') = album_ids (ctx rs)"
    and "created_albums (ctx rs') = created_albums (ctx rs)"
    and "dry_run (ctx rs') = dry_run (ctx rs)"
    and "public_albums (ctx rs') = public_albums (ctx rs)"
    and "albums (conn (ctx rs')) = albums (conn (ctx rs))"
    and "dry_run (ctx rs) \<Longrightarrow> conn (ctx rs') = conn (ctx rs)"
    and "failed_files rs' = failed_files rs \<Longrightarrow> rel \<in> existing_keys rs'"
    by simp_all
qed

subsection \<open>Uniqueness of paths and slugs\<close>

definition ctx_ok :: "recovery_context \<Rightarrow> bool" where
  "ctx_ok c \<longleftrightarrow>
     store_ok (conn c) \<and>
     (\<forall>r \<in> set (albums (conn c)). alb_path r \<noteq> [] \<longrightarrow> truthy (album_cache c (alb_path r)))"

lemma ctx_ok_cong:
  "albums (conn c') = albums (conn c) \<Longrightarrow> album_cache c' = album_cache c \<Longrightarrow> ctx_ok c \<Longrightarrow> ctx_ok c'"
  by (simp add: ctx_ok_def store_ok_def)

lemma create_album_ctx_ok:
  assumes ok: "ctx_ok c" and miss: "\<not> truthy (album_cache c P)" and ne: "P \<noteq> []"
    and uuid: "uuid_nonempty w"
    and cr: "create_album w c parent P seg = Inr c1"
  shows "ctx_ok c1"
  using cr
proof (cases rule: create_album_elim)
  case (created slug row)
  note slug = created(1) and row = created(3,4,5) and conn1 = created(6) and cache1 = created(8)
  from uuid have id: "uuid4 w (uuid_calls c) \<noteq> []" by (simp add: uuid_nonempty_def)
  from ok miss ne have noP: "P \<notin> set (map alb_path (albums (conn c)))"
    by (auto simp: ctx_ok_def)
  have old: "\<forall>r \<in> set (albums (conn c)). alb_path r \<noteq> [] \<longrightarrow> truthy (album_cache c1 (alb_path r))"
    using ok cache1 id by (auto simp: ctx_ok_def)
  show "ctx_ok c1"
  proof (cases "dry_run c")
    case True
    with conn1 ok old show ?thesis by (simp add: ctx_ok_def)
  next
    case False
    with conn1 have a: "albums (conn c1) = albums (conn c) @ [row]" by simp
    from ok noP slug row id have "store_ok (conn c1)"
      by (auto simp: a ctx_ok_def store_ok_def slug_exists_def)
    moreover from old row cache1 id
    have "\<forall>r \<in> set (albums (conn c1)). alb_path r \<noteq> [] \<longrightarrow> truthy (album_cache c1 (alb_path r))"
      by (auto simp: a)
    ultimately show ?thesis by (simp add: ctx_ok_def)
  qed
qed

lemma process_file_ctx_ok:
  assumes "process_file w a ef rs f = Inr rs1" and "ctx_ok (ctx rs)" and uuid: "uuid_nonempty w"
  shows "ctx_ok (ctx rs1)"
  using assms(1)
proof (cases rule: process_file_elim)
  case (skip rel)
  with assms(2) show ?thesis by simp
next
  case (known rel ap c1 t)
  from known(4) assms(2) have "ctx_ok c1"
    by (rule decided_album_invariant [where I = ctx_ok]) (rule create_album_ctx_ok [OF _ _ _ uuid])
  moreover note handle_existing_props(8,15) [OF known(6)]
  ultimately show ?thesis
    using ctx_ok_cong [of "ctx rs1" c1] by simp
next
  case (new rel ap c1 t)
  from new(4) assms(2) have "ctx_ok c1"
    by (rule decided_album_invariant [where I = ctx_ok]) (rule create_album_ctx_ok [OF _ _ _ uuid])
  moreover note insert_new_props(9,15) [OF new(6)]
  ultimately show ?thesis
    using ctx_ok_cong [of "ctx rs1" c1] by simp
qed

definition cache_row :: "album_row \<Rightarrow> (string \<rightharpoonup> string) \<Rightarrow> (string \<rightharpoonup> string)" where
  "cache_row r m = (if alb_path r \<noteq> [] then m(alb_path r \<mapsto> alb_id r) else m)"

lemma fold_cache_row_Some:
  "fold cache_row xs m P = Some i \<Longrightarrow>
     m P = Some i \<or> (\<exists>r \<in> set xs. alb_path r = P \<and> alb_id r = i \<and> P \<noteq> [])"
proof (induction xs arbitrary: m)
  case Nil
  then show ?case by simp
next
  case (Cons x xs)
  from Cons.prems have "fold cache_row xs (cache_row x m) P = Some i" by simp
  from Cons.IH [OF this] show ?case
    by (auto simp: cache_row_def split: if_splits)
qed

lemma fold_cache_row_dom:
  "m P \<noteq> None \<Longrightarrow> fold cache_row xs m P \<noteq> None"
proof (induction xs arbitrary: m)
  case Nil
  then show ?case by simp
next
  case (Cons x xs)
  from Cons.prems have "cache_row x m P \<noteq> None" by (simp add: cache_row_def)
  then have "fold cache_row xs (cache_row x m) P \<noteq> None" by (rule Cons.IH)
  then show ?case by simp
qed

lemma fold_cache_row_covers:
  "r \<in> set xs \<Longrightarrow> alb_path r \<noteq> [] \<Longrightarrow> fold cache_row xs m (alb_path r) \<noteq> None"
proof (induction xs arbitrary: m)
  case Nil
  then show ?case by simp
next
  case (Cons x xs)
  show ?case
  proof (cases "r = x")
    case True
    with Cons.prems(2) have "cache_row x m (alb_path r) \<noteq> None" by (simp add: cache_row_def)
    then have "fold cache_row xs (cache_row x m) (alb_path r) \<noteq> None"
      by (rule fold_cache_row_dom)
    then show ?thesis by simp
  next
    case False
    with Cons.prems have "r \<in> set xs" by simp
    then have "fold cache_row xs (cache_row x m) (alb_path r) \<noteq> None"
      using Cons.prems(2) by (rule Cons.IH)
    then show ?thesis by simp
  qed
qed

lemma load_album_cache_alt: "load_album_cache db = fold cache_row (albums db) Map.empty"
proof -
  have "cache_row = (\<lambda>r m. if alb_path r \<noteq> [] then m(alb_path r \<mapsto> alb_id r) else m)"
    by (intro ext) (simp add: cache_row_def)
  then show ?thesis by (simp add: load_album_cache_def)
qed

lemma load_album_cache_Some:
  "load_album_cache db P = Some i \<Longrightarrow> \<exists>r \<in> set (albums db). alb_path r = P \<and> alb_id r = i \<and> P \<noteq> []"
  using fold_cache_row_Some [of "albums db" Map.empty P i]
  by (simp add: load_album_cache_alt)

lemma load_album_cache_covers:
  "r \<in> set (albums db) \<Longrightarrow> alb_path r \<noteq> [] \<Longrightarrow> load_album_cache db (alb_path r) \<noteq> None"
  using fold_cache_row_covers [of r "albums db" Map.empty]
  by (simp add: load_album_cache_alt)

lemma initial_state_fields:
  "conn (ctx (initial_state a db)) = db"
  "album_cache (ctx (initial_state a db)) = load_album_cache db"
  "slug_cache (ctx (initial_state a db)) = load_slug_cache db"
  "album_ids (ctx (initial_state a db)) = load_album_ids db"
  "existing_keys (initial_state a db) = load_existing_keys db"
  "dry_run (ctx (initial_state a db)) = arg_dry_run a"
  "created_albums (ctx (initial_state a db)) = 0"
  "uuid_calls (ctx (initial_state a db)) = 0"
  "scanned (initial_state a db) = 0"
  "skipped_non_image (initial_state a db) = 0"
  "skipped_existing (initial_state a db) = 0"
  "repaired_existing (initial_state a db) = 0"
  "inserted_files (initial_state a db) = 0"
  "failed_files (initial_state a db) = 0"
  by (simp_all add: initial_state_def load_existing_state_def)

lemma initial_ctx_ok:
  assumes "store_ok db"
  shows "ctx_ok (ctx (initial_state a db))"
proof -
  have "truthy (load_album_cache db (alb_path r))" if r: "r \<in> set (albums db)" "alb_path r \<noteq> []" for r
  proof -
    from load_album_cache_covers [OF r] obtain i where i: "load_album_cache db (alb_path r) = Some i"
      by auto
    from load_album_cache_Some [OF i] obtain r' where "r' \<in> set (albums db)" "alb_id r' = i"
      by auto
    then have "i \<in> set (map alb_id (albums db))" by auto
    with assms have "i \<noteq> []"
      by (auto simp: store_ok_def)
    with i show ?thesis by simp
  qed
  with assms show ?thesis
    by (simp add: ctx_ok_def initial_state_fields)
qed

lemma recover_cases:
  obtains (aborted) "final_store (recover w a fs db) = db" "exit_code (recover w a fs db) \<noteq> 0"
      "summary (recover w a fs db) = None"
  | (completed) entries rs where
      "lookup_dir fs (arg_uploads a) \<noteq> None"
      "lookup_dir fs (scan_root a) = Some entries"
      "walk w a (load_existing_files db) (initial_state a db)
         (iter_files (arg_include_hidden a) (scan_root a) entries) = Inr rs"
      "recover w a fs db = \<lparr>exit_code = 0, final_store = conn (ctx rs), summary = Some rs\<rparr>"
proof (cases "arg_subdir a \<noteq> [] \<and> \<not> startswith (abs_str (scan_root a)) (abs_str (arg_uploads a))")
  case True
  then show thesis by (intro aborted) (simp_all add: recover_def)
next
  case pre: False
  show thesis
  proof (cases "lookup_dir fs (arg_uploads a)")
    case None
    with pre show thesis by (intro aborted) (simp_all add: recover_def)
  next
    case up: (Some u)
    show thesis
    proof (cases "lookup_dir fs (scan_root a)")
      case None
      with pre up show thesis by (intro aborted) (simp_all add: recover_def)
    next
      case (Some entries)
      show thesis
      proof (cases "walk w a (load_existing_files db) (initial_state a db)
                      (iter_files (arg_include_hidden a) (scan_root a) entries)")
        case (Inl exc)
        with pre up Some show thesis by (intro aborted) (simp_all add: recover_def)
      next
        case (Inr rs)
        with pre up Some show thesis
          by (intro completed [of entries rs]) (simp_all add: recover_def)
      qed
    qed
  qed
qed

lemma recover_store_ok:
  assumes "store_ok db" and "uuid_nonempty w"
  shows "store_ok (final_store (recover w a fs db))"
proof (cases rule: recover_cases [of w a fs db])
  case aborted
  with assms(1) show ?thesis by simp
next
  case (completed entries rs)
  from completed(3) initial_ctx_ok [OF assms(1)] have "ctx_ok (ctx rs)"
    by (rule walk_invariant [where I = "\<lambda>rs. ctx_ok (ctx rs)"])
      (rule process_file_ctx_ok [OF _ _ assms(2)])
  with completed(4) show ?thesis by (simp add: ctx_ok_def)
qed

lemma runs_store_ok:
  assumes "store_ok db" and "\<forall>r \<in> set rs. uuid_nonempty (fst r)"
  shows "store_ok (runs rs db)"
  using assms
proof (induction rs arbitrary: db)
  case Nil
  then show ?case by simp
next
  case (Cons r rs)
  obtain w a fs where r: "r = (w, a, fs)" by (cases r)
  with Cons.prems have "store_ok (final_store (recover w a fs db))"
    by (intro recover_store_ok) simp_all
  with Cons.prems(2) r show ?case
    by (simp add: Cons.IH)
qed

subsection \<open>Counting the containers created\<close>

definition counted :: "recovery_context \<Rightarrow> recovery_context \<Rightarrow> bool" where
  "counted c0 c \<longleftrightarrow>
     (\<forall>P. truthy (album_cache c0 P) \<longrightarrow> album_cache c P = album_cache c0 P)
     \<and> finite (newly_cached c0 c)
     \<and> created_albums c = created_albums c0 + card (newly_cached c0 c)"

lemma counted_refl: "counted c c"
  by (simp add: counted_def newly_cached_def)

lemma counted_cong:
  "album_cache c' = album_cache c \<Longrightarrow> created_albums c' = created_albums c \<Longrightarrow>
   counted c0 c \<Longrightarrow> counted c0 c'"
  by (simp add: counted_def newly_cached_def)

lemma create_album_counted:
  assumes cnt: "counted c0 c" and miss: "\<not> truthy (album_cache c P)"
    and uuid: "uuid_nonempty w"
    and cr: "create_album w c parent P seg = Inr c1"
  shows "counted c0 c1"
  using cr
proof (cases rule: create_album_elim)
  case (created slug row)
  note cache1 = created(8) and cnt1 = created(11)
  from uuid have id: "uuid4 w (uuid_calls c) \<noteq> []" by (simp add: uuid_nonempty_def)
  from cnt have keep: "\<And>Q. truthy (album_cache c0 Q) \<Longrightarrow> album_cache c Q = album_cache c0 Q"
    and fin: "finite (newly_cached c0 c)"
    and num: "created_albums c = created_albums c0 + card (newly_cached c0 c)"
    by (simp_all add: counted_def)
  have P0: "\<not> truthy (album_cache c0 P)"
    using keep [of P] miss by auto
  have keep1: "\<forall>Q. truthy (album_cache c0 Q) \<longrightarrow> album_cache c1 Q = album_cache c0 Q"
    using keep P0 cache1 by auto
  have new: "newly_cached c0 c1 = insert P (newly_cached c0 c)"
    using cache1 id P0 by (auto simp: newly_cached_def)
  have "P \<notin> newly_cached c0 c"
    using miss by (simp add: newly_cached_def)
  with fin new have "card (newly_cached c0 c1) = card (newly_cached c0 c) + 1"
    by simp
  with keep1 fin new num cnt1 show ?thesis
    by (simp add: counted_def)
qed

lemma ensure_album_chain_counted:
  assumes "ensure_album_chain w c p = Inr (c1, r)" and "uuid_nonempty w"
  shows "counted c c1"
  using assms(1) counted_refl
proof (rule ensure_album_chain_invariant [where I = "counted c"])
  fix c' parent P seg c1'
  assume "counted c c'" "\<not> truthy (album_cache c' P)" "create_album w c' parent P seg = Inr c1'"
  then show "counted c c1'" using assms(2) by (intro create_album_counted [of c c' P w parent seg c1'])
qed

lemma process_file_counted:
  assumes "process_file w a ef rs f = Inr rs1" and "counted c0 (ctx rs)" and uuid: "uuid_nonempty w"
  shows "counted c0 (ctx rs1)"
  using assms(1)
proof (cases rule: process_file_elim)
  case (skip rel)
  with assms(2) show ?thesis by simp
next
  case (known rel ap c1 t)
  from known(4) assms(2) have "counted c0 c1"
  proof (rule decided_album_invariant [where I = "counted c0"])
    fix c' parent P seg c1'
    assume "counted c0 c'" "\<not> truthy (album_cache c' P)" "create_album w c' parent P seg = Inr c1'"
    then show "counted c0 c1'" using uuid by (intro create_album_counted [of c0 c' P w parent seg c1'])
  qed
  moreover note handle_existing_props(8,11) [OF known(6)]
  ultimately show ?thesis
    using counted_cong [of "ctx rs1" c1 c0] by simp
next
  case (new rel ap c1 t)
  from new(4) assms(2) have "counted c0 c1"
  proof (rule decided_album_invariant [where I = "counted c0"])
    fix c' parent P seg c1'
    assume "counted c0 c'" "\<not> truthy (album_cache c' P)" "create_album w c' parent P seg = Inr c1'"
    then show "counted c0 c1'" using uuid by (intro create_album_counted [of c0 c' P w parent seg c1'])
  qed
  moreover note insert_new_props(9,12) [OF new(6)]
  ultimately show ?thesis
    using counted_cong [of "ctx rs1" c1 c0] by simp
qed

lemma walk_counted:
  assumes "walk w a ef rs fl = Inr rs'" and "uuid_nonempty w"
  shows "counted (ctx rs) (ctx rs')"
  using assms(1) counted_refl
  by (rule walk_invariant [where I = "\<lambda>x. counted (ctx rs) (ctx x)"])
    (rule process_file_counted [OF _ _ assms(2)])

subsection \<open>A live run and the store it leaves\<close>
















subsection \<open>A run over a catalog that is complete\<close>






subsection \<open>Running again over the committed store\<close>








subsection \<open>A preview simulates the live run\<close>




















subsection \<open>The known slugs of a run\<close>

text \<open>
  Between two contexts of a run the known slugs only grow, by one slug for each
  container created.
\<close>

definition slugs_grow :: "recovery_context \<Rightarrow> recovery_context \<Rightarrow> bool" where
  "slugs_grow c0 c \<longleftrightarrow>
     slug_cache c0 |\<subseteq>| slug_cache c
     \<and> fcard (slug_cache c) + created_albums c0 = fcard (slug_cache c0) + created_albums c"

lemma slugs_grow_refl: "slugs_grow c c"
  by (simp add: slugs_grow_def)

lemma create_album_slugs:
  assumes g: "slugs_grow c0 c" and cr: "create_album w c parent P seg = Inr c1"
  shows "slugs_grow c0 c1"
  using cr
proof (cases rule: create_album_elim)
  case (created slug row)
  from created(2,9) have "fcard (slug_cache c1) = fcard (slug_cache c) + 1"
    by (simp add: fcard_finsert_disjoint)
  with g created(9,11) show ?thesis
    by (auto simp: slugs_grow_def)
qed

lemma create_album_registers:
  assumes cr: "create_album w c parent P seg = Inr c1"
  shows "slug_cache c1 = snd (ensure_unique_slug (conn c) (slugify seg) P (slug_cache c))"
    and "created_albums c1 = created_albums c + 1"
  using cr
  by (auto simp: create_album_def Let_def split: prod.splits sum.splits if_splits)

lemma process_file_slugs:
  assumes "process_file w a ef rs f = Inr rs1" and "slugs_grow c0 (ctx rs)"
  shows "slugs_grow c0 (ctx rs1)"
  using assms(1)
proof (cases rule: process_file_elim)
  case (skip rel)
  with assms(2) show ?thesis by simp
next
  case (known rel ap c1 t)
  from known(4) assms(2) have "slugs_grow c0 c1"
  proof (rule decided_album_invariant [where I = "slugs_grow c0"])
    fix c' parent P seg c1'
    assume "slugs_grow c0 c'" "create_album w c' parent P seg = Inr c1'"
    then show "slugs_grow c0 c1'" by (rule create_album_slugs)
  qed
  with handle_existing_props(9,11) [OF known(6)] show ?thesis
    by (simp add: slugs_grow_def)
next
  case (new rel ap c1 t)
  from new(4) assms(2) have "slugs_grow c0 c1"
  proof (rule decided_album_invariant [where I = "slugs_grow c0"])
    fix c' parent P seg c1'
    assume "slugs_grow c0 c'" "create_album w c' parent P seg = Inr c1'"
    then show "slugs_grow c0 c1'" by (rule create_album_slugs)
  qed
  with insert_new_props(10,12) [OF new(6)] show ?thesis
    by (simp add: slugs_grow_def)
qed

lemma walk_slugs:
  assumes "walk w a ef rs fl = Inr rs'"
  shows "slugs_grow (ctx rs) (ctx rs')"
  using assms slugs_grow_refl
  by (rule walk_invariant [where I = "\<lambda>x. slugs_grow (ctx rs) (ctx x)"])
    (rule process_file_slugs)

lemma recover_slugs:
  assumes "summary (recover w a fs db) = Some rs"
  shows "slugs_grow (ctx (initial_state a db)) (ctx rs)"
proof (cases rule: recover_cases [of w a fs db])
  case aborted
  with assms show ?thesis by simp
next
  case (completed entries rs0)
  with assms have "walk w a (load_existing_files db) (initial_state a db)
      (iter_files (arg_include_hidden a) (scan_root a) entries) = Inr rs"
    by simp
  then show ?thesis by (rule walk_slugs)
qed

subsection \<open>What a live run with fresh identifiers catalogs\<close>











subsection \<open>The example runs\<close>

lemma example_world_uuid_nonempty: "uuid_nonempty example_world"
  by (simp add: uuid_nonempty_def example_world_def)

lemma example_by_dir_run:
  "final_store (recover example_world (example_args [] ''by-dir'' False False) example_fs empty_store)
     = example_catalog"
  by (simp add: eval_defs)

lemma example_by_dir_rerun:
  "final_store (recover example_world (example_args [] ''by-dir'' False False) example_fs example_catalog)
     = example_catalog"
  by (simp add: eval_defs)




lemma example_twin_preview:
  "\<exists>rs. walk example_world (example_args [] ''by-dir'' False True) (load_existing_files empty_store)
     (initial_state (example_args [] ''by-dir'' False True) empty_store)
     (walked_files (example_args [] ''by-dir'' False True) example_twin_fs)
   = Inr rs \<and> slug_cache (ctx rs) = {|''g-896568'', ''g''|} \<and> created_albums (ctx rs) = 2"
  by (simp add: eval_defs sha1_hex6_g album_chain_loop.simps)

lemma example_twin_run:
  "\<exists>rs. summary (recover example_world (example_args [] ''by-dir'' False True) example_twin_fs empty_store)
          = Some rs
      \<and> slug_cache (ctx rs) = {|''g-896568'', ''g''|} \<and> created_albums (ctx rs) = 2"
  by (simp add: eval_defs sha1_hex6_g album_chain_loop.simps)

lemma example_twin_create:
  "\<exists>c1. create_album example_world example_preview_context None ''/g'' ''g'' = Inr c1
      \<and> slug_cache c1 = {|''g-896568'', ''g''|} \<and> created_albums c1 = 2 \<and> conn c1 = empty_store"
  by (simp add: example_preview_context_def eval_defs sha1_hex6_g)

lemma example_twin_slugs:
  "ensure_unique_slug empty_store ''g'' ''/g!'' {||} = (''g'', {|''g''|})"
  "ensure_unique_slug empty_store ''g'' ''/g'' {|''g''|} = (''g-896568'', {|''g-896568'', ''g''|})"
  by (simp_all add: eval_defs sha1_hex6_g)



subsection \<open>The path classifier\<close>

lemma key_join_facts:
  assumes "segs \<noteq> []" "list_all key_segment segs"
  shows "py_split CHR ''/'' (py_join ''/'' segs) = segs"
    and "py_join ''/'' segs \<noteq> []"
    and "hd (py_join ''/'' segs) \<noteq> CHR ''/''"
    and "last (py_join ''/'' segs) \<noteq> CHR ''/''"
    and "py_join ''/'' segs \<noteq> ''.''"
proof -
  from assms have seg: "\<And>s. s \<in> set segs \<Longrightarrow> key_segment s"
    by (simp add: list_all_iff)
  then have nosep: "\<forall>s \<in> set segs. CHR ''/'' \<notin> set s"
    by (simp add: key_segment_def)
  with assms(1) show split: "py_split CHR ''/'' (py_join ''/'' segs) = segs"
    using py_split_join [of segs "CHR ''/''"] by simp
  from assms(1) seg have h: "hd segs \<noteq> []" "last segs \<noteq> []"
    by (auto simp: key_segment_def)
  with assms(1) show "py_join ''/'' segs \<noteq> []"
    using py_join_hd [of segs "''/''"] by simp
  from assms(1) seg have "hd (hd segs) \<in> set (hd segs)" "last (last segs) \<in> set (last segs)"
    using h by simp_all
  moreover from assms(1) nosep have "CHR ''/'' \<notin> set (hd segs)" "CHR ''/'' \<notin> set (last segs)"
    by simp_all
  ultimately have "hd (hd segs) \<noteq> CHR ''/''" "last (last segs) \<noteq> CHR ''/''"
    by metis+
  with assms(1) h show "hd (py_join ''/'' segs) \<noteq> CHR ''/''" "last (py_join ''/'' segs) \<noteq> CHR ''/''"
    using py_join_hd [of segs "''/''"] py_join_last [of segs "''/''"] by simp_all
  show "py_join ''/'' segs \<noteq> ''.''"
  proof
    assume "py_join ''/'' segs = ''.''"
    with split have "segs = [''.'']" by simp
    with seg show False by (simp add: key_segment_def)
  qed
qed

lemma path_parent_str_key:
  assumes "segs \<noteq> []" "list_all key_segment segs"
  shows "path_parent_str (py_join ''/'' segs) =
           (if butlast segs = [] then ''.'' else py_join ''/'' (butlast segs))"
proof -
  from assms have "filter (\<lambda>p. p \<noteq> [] \<and> p \<noteq> ''.'') segs = segs"
    by (auto simp: list_all_iff key_segment_def intro!: filter_True)
  then have "path_parts (py_join ''/'' segs) = segs"
    using key_join_facts(1) [OF assms] by (simp add: path_parts_def)
  moreover have "path_root (py_join ''/'' segs) = []"
    using key_join_facts(2,3) [OF assms]
    by (cases "py_join ''/'' segs") (auto simp: path_root_def startswith_def)
  ultimately show ?thesis
    by (simp add: path_parent_str_def path_str_def)
qed

lemma replace_char_dot:
  "replace_char backslash CHR ''/'' s = ''.'' \<longleftrightarrow> s = ''.''"
  by (cases s) (auto simp: replace_char_def backslash_def)

lemma decide_album_path_key:
  assumes "segs \<noteq> []" "list_all key_segment segs"
  shows "decide_album_path (py_join ''/'' segs) mode =
           (if butlast segs = [] \<or> mode = ''none'' then Inr None
            else if mode = ''by-dir'' then
              Inr (Some (''/'' @ py_strip ''/''
                     (replace_char backslash CHR ''/'' (py_join ''/'' (butlast segs)))))
            else if mode = ''auto'' then
              (if sharded_segments segs then Inr None
               else Inr (Some (''/'' @ py_strip ''/''
                     (replace_char backslash CHR ''/'' (py_join ''/'' (butlast segs))))))
            else Inl ValueError)"
proof (cases "butlast segs = []")
  case True
  then show ?thesis
    using path_parent_str_key [OF assms]
    by (simp add: decide_album_path_def replace_char_def backslash_def)
next
  case False
  from assms(2) have b: "list_all key_segment (butlast segs)"
    by (auto simp: list_all_iff dest: in_set_butlastD)
  note f = key_join_facts [OF False b]
  have parent: "path_parent_str (py_join ''/'' segs) = py_join ''/'' (butlast segs)"
    using path_parent_str_key [OF assms] False by simp
  have nodot: "replace_char backslash CHR ''/'' (py_join ''/'' (butlast segs)) \<noteq> ''.''"
    using f(5) by (simp add: replace_char_dot)
  have shard: "looks_like_sharded_upload (py_join ''/'' segs) = sharded_segments segs"
    using key_join_facts(1) [OF assms]
    by (auto simp: looks_like_sharded_upload_def sharded_segments_def)
  from False parent shard nodot show ?thesis
    by (simp add: decide_album_path_def)
qed

lemma parent_without_backslash:
  assumes "butlast segs \<noteq> []" "list_all key_segment segs"
    and "list_all (\<lambda>s. backslash \<notin> set s) (butlast segs)"
  shows "py_strip ''/'' (replace_char backslash CHR ''/'' (py_join ''/'' (butlast segs)))
           = py_join ''/'' (butlast segs)"
proof -
  from assms(2) have b: "list_all key_segment (butlast segs)"
    by (auto simp: list_all_iff dest: in_set_butlastD)
  note f = key_join_facts [OF assms(1) b]
  have "backslash \<noteq> CHR ''/''"
    by (simp add: backslash_def)
  with assms(3) have "backslash \<notin> set (py_join ''/'' (butlast segs))"
    using set_py_join [of "''/''" "butlast segs"] by (auto simp: list_all_iff)
  then have "replace_char backslash CHR ''/'' (py_join ''/'' (butlast segs))
               = py_join ''/'' (butlast segs)"
    by (rule replace_char_id)
  moreover have "py_strip ''/'' (py_join ''/'' (butlast segs)) = py_join ''/'' (butlast segs)"
    using f(2,3,4) by (intro py_strip_id) simp_all
  ultimately show ?thesis by simp
qed

text \<open>
  Claim C2, as amended. A relative key is the join of its segments, as
  \<open>normalize_rel_key\<close> builds it from a path below the uploads directory. For every
  such key: mode \<open>none\<close> yields no container; mode \<open>by-dir\<close> yields no container for
  a file at the tree root, and otherwise a slash followed by the parent directory
  (the key without its last segment) in which every backslash is replaced by a slash
  and the slashes at both ends are removed, which is the absolute path of the
  immediate parent directory whenever no directory name on the way holds a
  backslash; mode \<open>auto\<close> agrees with \<open>by-dir\<close> except that it yields no container
  exactly when the key has at least three segments, the first of four digits and the
  second of one or two digits. So \<open>2024/03/x.jpg\<close> is unattached under \<open>auto\<close> and
  \<open>vacation/beach.jpg\<close> maps to \<open>/vacation\<close>.
\<close>

theorem decide_album_path_spec:
  assumes "segs \<noteq> []" and "list_all key_segment segs"
  shows "normalize_rel_key (base @ segs) base = Inr (py_join ''/'' segs)
       \<and> path_parent_str (py_join ''/'' segs)
           = (if length segs = 1 then ''.'' else py_join ''/'' (butlast segs))
       \<and> decide_album_path (py_join ''/'' segs) ''none'' = Inr None
       \<and> decide_album_path (py_join ''/'' segs) ''by-dir'' =
           Inr (if length segs = 1 then None
                else Some (''/'' @ py_strip ''/''
                       (replace_char backslash CHR ''/'' (py_join ''/'' (butlast segs)))))
       \<and> (list_all (\<lambda>s. backslash \<notin> set s) (butlast segs) \<longrightarrow>
            decide_album_path (py_join ''/'' segs) ''by-dir'' =
              Inr (if length segs = 1 then None else Some (''/'' @ py_join ''/'' (butlast segs))))
       \<and> decide_album_path (py_join ''/'' segs) ''auto'' =
           (if sharded_segments segs then Inr None
            else decide_album_path (py_join ''/'' segs) ''by-dir'')
       \<and> looks_like_sharded_upload (py_join ''/'' segs) = sharded_segments segs
       \<and> decide_album_path ''2024/03/x.jpg'' ''auto'' = Inr None
       \<and> decide_album_path ''vacation/beach.jpg'' ''auto'' = Inr (Some ''/vacation'')"
proof -
  have one: "butlast segs = [] \<longleftrightarrow> length segs = 1"
    using assms(1) by (cases segs) auto
  have key: "normalize_rel_key (base @ segs) base = Inr (py_join ''/'' segs)"
    using assms(1) by (simp add: normalize_rel_key_def)
  have parent: "path_parent_str (py_join ''/'' segs)
           = (if length segs = 1 then ''.'' else py_join ''/'' (butlast segs))"
    using path_parent_str_key [OF assms] one by simp
  have shard: "looks_like_sharded_upload (py_join ''/'' segs) = sharded_segments segs"
    using key_join_facts(1) [OF assms]
    by (auto simp: looks_like_sharded_upload_def sharded_segments_def)
  have plain: "decide_album_path (py_join ''/'' segs) ''by-dir'' =
              Inr (if length segs = 1 then None else Some (''/'' @ py_join ''/'' (butlast segs)))"
    if "list_all (\<lambda>s. backslash \<notin> set s) (butlast segs)"
  proof (cases "butlast segs = []")
    case True
    with one show ?thesis by (simp add: decide_album_path_key [OF assms])
  next
    case False
    from parent_without_backslash [OF False assms(2) that] False one show ?thesis
      by (simp add: decide_album_path_key [OF assms])
  qed
  have ex1: "decide_album_path ''2024/03/x.jpg'' ''auto'' = Inr None"
    by (simp add: decide_album_path_def path_parent_str_def path_str_def path_root_def
        path_parts_def startswith_def replace_char_def backslash_def py_strip_def
        looks_like_sharded_upload_def is_digit_def)
  have ex2: "decide_album_path ''vacation/beach.jpg'' ''auto'' = Inr (Some ''/vacation'')"
    by (simp add: decide_album_path_def path_parent_str_def path_str_def path_root_def
        path_parts_def startswith_def replace_char_def backslash_def py_strip_def
        looks_like_sharded_upload_def is_digit_def)
  have rest: "decide_album_path (py_join ''/'' segs) ''none'' = Inr None
       \<and> decide_album_path (py_join ''/'' segs) ''by-dir'' =
           Inr (if length segs = 1 then None
                else Some (''/'' @ py_strip ''/''
                       (replace_char backslash CHR ''/'' (py_join ''/'' (butlast segs)))))
       \<and> decide_album_path (py_join ''/'' segs) ''auto'' =
           (if sharded_segments segs then Inr None
            else decide_album_path (py_join ''/'' segs) ''by-dir'')"
    using one by (simp add: decide_album_path_key [OF assms])
  from key parent plain shard ex1 ex2 rest show ?thesis
    by simp
qed

theorem decide_album_path_spec_witness:
  "normalize_rel_key [''data'', ''uploads'', ''2023'', ''05'', ''a1b2.png''] [''data'', ''uploads'']
     = Inr ''2023/05/a1b2.png''
   \<and> decide_album_path ''2023/05/a1b2.png'' ''none'' = Inr None
   \<and> decide_album_path ''2023/05/a1b2.png'' ''by-dir'' = Inr (Some ''/2023/05'')
   \<and> decide_album_path ''2023/05/a1b2.png'' ''auto'' = Inr None
   \<and> decide_album_path ''x.jpg'' ''by-dir'' = Inr None
   \<and> decide_album_path ''x.jpg'' ''auto'' = Inr None"
proof -
  have a: "[''2023'', ''05'', ''a1b2.png''] \<noteq> []" "list_all key_segment [''2023'', ''05'', ''a1b2.png'']"
    by (simp_all add: key_segment_def)
  have b: "[''x.jpg''] \<noteq> []" "list_all key_segment [''x.jpg'']"
    by (simp_all add: key_segment_def)
  have n: "list_all (\<lambda>s. backslash \<notin> set s) (butlast [''2023'', ''05'', ''a1b2.png''])"
    "list_all (\<lambda>s. backslash \<notin> set s) (butlast [''x.jpg''])"
    by (simp_all add: backslash_def)
  have s: "sharded_segments [''2023'', ''05'', ''a1b2.png'']" "\<not> sharded_segments [''x.jpg'']"
    by (simp_all add: sharded_segments_def is_digit_def)
  note t1 = decide_album_path_spec [OF a, of "[''data'', ''uploads'']"]
    and t2 = decide_album_path_spec [OF b, of "[''data'', ''uploads'']"]
  note u1 = t1 [THEN conjunct2, THEN conjunct2] and u2 = t2 [THEN conjunct2, THEN conjunct2]
  from t1 [THEN conjunct1]
  have k: "normalize_rel_key [''data'', ''uploads'', ''2023'', ''05'', ''a1b2.png''] [''data'', ''uploads'']
     = Inr ''2023/05/a1b2.png''" by simp
  from u1 [THEN conjunct1] have n1: "decide_album_path ''2023/05/a1b2.png'' ''none'' = Inr None"
    by simp
  from u1 [THEN conjunct2, THEN conjunct2, THEN conjunct1] n(1)
  have d1: "decide_album_path ''2023/05/a1b2.png'' ''by-dir'' = Inr (Some ''/2023/05'')"
    by simp
  from u1 [THEN conjunct2, THEN conjunct2, THEN conjunct2, THEN conjunct1] s(1)
  have a1: "decide_album_path ''2023/05/a1b2.png'' ''auto'' = Inr None"
    by simp
  from u2 [THEN conjunct2, THEN conjunct2, THEN conjunct1] n(2)
  have d2: "decide_album_path ''x.jpg'' ''by-dir'' = Inr None"
    by simp
  from u2 [THEN conjunct2, THEN conjunct2, THEN conjunct2, THEN conjunct1] s(2) d2
  have a2: "decide_album_path ''x.jpg'' ''auto'' = Inr None"
    by simp
  from k n1 d1 a1 d2 a2 show ?thesis by simp
qed

text \<open>
  The claim as stated fails for a directory whose name holds a backslash. Take the
  file \<^verbatim>\<open>x.jpg\<close> in the directory named \<open>a\<close>, backslash, \<open>b\<close>: the parent
  directory of its key is that one directory, but the decided container path is
  \<^verbatim>\<open>/a/b\<close>. The backslash has become a separator, and a live run creates the two
  containers \<^verbatim>\<open>/a\<close> and \<^verbatim>\<open>/a/b\<close> for the one directory.
\<close>

theorem backslash_directory_is_split:
  "normalize_rel_key [''data'', ''uploads'', CHR ''a'' # backslash # ''b'', ''x.jpg'']
       [''data'', ''uploads''] = Inr (CHR ''a'' # backslash # ''b/x.jpg'')
   \<and> path_parent_str (CHR ''a'' # backslash # ''b/x.jpg'') = CHR ''a'' # backslash # ''b''
   \<and> decide_album_path (CHR ''a'' # backslash # ''b/x.jpg'') ''by-dir'' = Inr (Some ''/a/b'')
   \<and> decide_album_path (CHR ''a'' # backslash # ''b/x.jpg'') ''auto'' = Inr (Some ''/a/b'')
   \<and> ''/a/b'' \<noteq> ''/'' @ CHR ''a'' # backslash # ''b''
   \<and> map alb_path (albums (final_store
        (recover example_world (example_args [] ''by-dir'' False False) example_backslash_fs
           empty_store))) = [''/a'', ''/a/b'']"
  by (simp add: eval_defs album_chain_loop.simps)

subsection \<open>The slug allocator\<close>

text \<open>
  Claim C10, as amended. The probing loop is a total function (its termination is
  proved with the definition, for every store and every known-slug set), and the slug
  it returns is free in the store and in the known-slug set and is registered there.
  The numbered candidates \<open>base-2, base-3, \<dots>\<close> are pairwise distinct and differ
  from the base; the hash-disambiguated first candidate equals the numbered candidate
  \<open>base-k\<close> exactly when the six-digit digest is the decimal numeral of \<open>k\<close>.
  The loop stops with a counter of at most one more than the number of occupied slugs,
  and every candidate it passed over was occupied.
\<close>

theorem ensure_unique_slug_spec:
  "case slug_probe db b S 1 (first_candidate b p S) of (n, s) \<Rightarrow>
     ensure_unique_slug db b p S = (s, finsert s S)
     \<and> \<not> slug_exists db s \<and> s |\<notin>| S
     \<and> 1 \<le> n \<and> s = slug_candidate b p S n
     \<and> (\<forall>k. 1 \<le> k \<and> k < n \<longrightarrow> occupied db S (slug_candidate b p S k))
     \<and> n \<le> card (set (map alb_slug (albums db)) \<union> fset S) + 1
     \<and> (\<forall>i j. numbered_candidate b i = numbered_candidate b j \<longrightarrow> i = j)
     \<and> (\<forall>k. numbered_candidate b k \<noteq> b)
     \<and> (\<forall>k. first_candidate b p S = numbered_candidate b k
            \<longleftrightarrow> b |\<in>| S \<and> sha1_hex6 p = str_nat k)"
proof -
  obtain n s where r: "slug_probe db b S 1 (first_candidate b p S) = (n, s)"
    by (cases "slug_probe db b S 1 (first_candidate b p S)")
  note sp = slug_probe_spec [OF r]
  have e: "ensure_unique_slug db b p S = (s, finsert s S)"
    using r by (simp add: ensure_unique_slug_def)
  from sp have free: "\<not> slug_exists db s" "s |\<notin>| S"
    by (auto simp: occupied_def)
  from sp have n1: "1 \<le> n" by auto
  from sp have cand: "s = slug_candidate b p S n"
    by (auto simp: slug_candidate_def)
  have occ: "\<forall>k. 1 \<le> k \<and> k < n \<longrightarrow> occupied db S (slug_candidate b p S k)"
  proof (intro allI impI)
    fix k assume k: "1 \<le> k \<and> k < n"
    show "occupied db S (slug_candidate b p S k)"
    proof (cases "k = 1")
      case True
      with k sp show ?thesis by (auto simp: slug_candidate_def)
    next
      case False
      with k have "1 < k \<and> k < n" by simp
      with sp False show ?thesis by (auto simp: slug_candidate_def)
    qed
  qed
  note bound = slug_probe_bound [OF r]
  have inj: "\<forall>i j. numbered_candidate b i = numbered_candidate b j \<longrightarrow> i = j"
    by (auto dest: numbered_candidate_inj)
  have nb: "\<forall>k. numbered_candidate b k \<noteq> b"
    by (simp add: numbered_candidate_not_base)
  have first: "\<forall>k. first_candidate b p S = numbered_candidate b k
            \<longleftrightarrow> b |\<in>| S \<and> sha1_hex6 p = str_nat k"
    by (auto simp: first_candidate_def numbered_candidate_def)
  from e free n1 cand occ bound inj nb first show ?thesis
    by (simp only: r prod.case) blast
qed

theorem ensure_unique_slug_spec_witness:
  "ensure_unique_slug
     \<lparr>albums = [\<lparr>alb_id = ''id-1'', alb_name = ''a'', alb_slug = ''a'', alb_parent_id = None,
                  alb_password = None, alb_is_public = Some 0, alb_cover_file_id = None,
                  alb_path = ''/a'', alb_created_at = ''t'', alb_updated_at = ''t''\<rparr>],
      files = []\<rparr> ''a'' ''/b/a'' {||} = (''a-2'', {|''a-2''|})"
proof -
  let ?c = "\<lparr>albums = [\<lparr>alb_id = ''id-1'', alb_name = ''a'', alb_slug = ''a'', alb_parent_id = None,
                  alb_password = None, alb_is_public = Some 0, alb_cover_file_id = None,
                  alb_path = ''/a'', alb_created_at = ''t'', alb_updated_at = ''t''\<rparr>],
      files = []\<rparr>"
  have "slug_probe ?c ''a'' {||} 1 (first_candidate ''a'' ''/b/a'' {||}) = (2, ''a-2'')"
    by (simp add: slug_probe.simps first_candidate_def numbered_candidate_def slug_exists_def
        str_nat.simps digit_char_def)
  with ensure_unique_slug_spec [where db = ?c and b = "''a''" and S = "{||}" and p = "''/b/a''"] show ?thesis
    by simp
qed

text \<open>
  The candidates are not always pairwise distinct: the SHA-1 digest of \<open>/g\<close> starts
  with \<open>896568\<close>, so for the base slug \<open>g\<close> already known, the first candidate
  \<open>g-896568\<close> is probed again when the counter reaches 896568.
\<close>

theorem slug_candidates_repeat:
  "slug_candidate ''g'' ''/g'' {|''g''|} 1 = slug_candidate ''g'' ''/g'' {|''g''|} 896568
   \<and> (1 :: nat) \<noteq> 896568"
  by (simp add: slug_candidate_def first_candidate_def numbered_candidate_def
      sha1_hex6_g str_nat_896568)

subsection \<open>Repair of existing rows\<close>

lemma example_repair:
  "repair_existing_file example_world example_context (snapshot_row example_file_row)
     example_file ''2024/03/u.jpg'' None
   = Inr (example_context
            \<lparr>conn := \<lparr>albums = [], files = [example_file_row\<lparr>file_size := 7, updated_at := ''t0''\<rparr>]\<rparr>,
             clock_calls := 1\<rparr>, True)"
  by (simp add: example_context_def example_file_def eval_defs)

lemma example_repair_decided:
  "repair_existing_file example_world example_context (snapshot_row example_file_row)
     example_file ''2024/03/u.jpg'' (Some ''u9'')
   = Inr (example_context
            \<lparr>conn := \<lparr>albums = [], files = [example_file_row\<lparr>album_id := Some ''u9'', file_size := 7, updated_at := ''t0''\<rparr>]\<rparr>,
             clock_calls := 1\<rparr>, True)"
  by (simp add: example_context_def example_file_def eval_defs)

text \<open>
  Claim C7. A repair changes nothing but the container id, the display name, the size,
  the MIME type and the update timestamp of the rows of the item: the table of
  containers and every other column of every item row are as before. In particular
  a repair for a size mismatch keeps tags and caption.
\<close>

theorem repair_frame:
  assumes "repair_existing_file w c existing full_path rel_key target = Inr (c', repaired)"
  shows "albums (conn c') = albums (conn c)
       \<and> map file_id (files (conn c')) = map file_id (files (conn c))
       \<and> map file_key (files (conn c')) = map file_key (files (conn c))
       \<and> map width (files (conn c')) = map width (files (conn c))
       \<and> map height (files (conn c')) = map height (files (conn c))
       \<and> map thumbhash (files (conn c')) = map thumbhash (files (conn c))
       \<and> map tags (files (conn c')) = map tags (files (conn c))
       \<and> map caption (files (conn c')) = map caption (files (conn c))
       \<and> map semantic_description (files (conn c')) = map semantic_description (files (conn c))
       \<and> map aliases (files (conn c')) = map aliases (files (conn c))
       \<and> map annotation_updated_at (files (conn c')) = map annotation_updated_at (files (conn c))
       \<and> map exif_data (files (conn c')) = map exif_data (files (conn c))
       \<and> map created_at (files (conn c')) = map created_at (files (conn c))"
  using repair_cases [OF assms]
  by (elim disjE conjE) (simp_all add: update_file_frame)

theorem repair_frame_witness:
  "(case repair_existing_file example_world example_context (snapshot_row example_file_row)
           example_file ''2024/03/u.jpg'' None of
      Inl exc \<Rightarrow> False
    | Inr (c', repaired) \<Rightarrow>
        repaired \<and> map file_size (files (conn example_context)) = [5]
        \<and> map file_size (files (conn c')) = [7]
        \<and> map tags (files (conn c')) = [Some ''[sea]'']
        \<and> map caption (files (conn c')) = [Some ''Sunset''])"
  using repair_frame [OF example_repair]
  by (simp add: example_repair) (simp add: example_store_def example_file_row_def example_context_def)

text \<open>
  Claim C5. When no container is decided, an update written by the repair carries the
  container id of the item's snapshot: every row of the item holds it afterwards, the
  other rows are untouched, and a row whose stored container id is non-empty keeps
  it. Without an update the store is unchanged.
\<close>

theorem repair_undecided_keeps_album:
  assumes "repair_existing_file w c existing full_path rel_key None = Inr (c', repaired)"
  shows "(repaired \<and> \<not> dry_run c \<longrightarrow>
            (\<forall>r \<in> set (files (conn c')). file_id r = ex_id existing \<longrightarrow> album_id r = ex_album_id existing))
       \<and> (\<not> (repaired \<and> \<not> dry_run c) \<longrightarrow> conn c' = conn c)
       \<and> length (files (conn c')) = length (files (conn c))
       \<and> (\<forall>i < length (files (conn c)).
             existing = snapshot_row (files (conn c) ! i) \<and> truthy (album_id (files (conn c) ! i))
             \<longrightarrow> album_id (files (conn c') ! i) = album_id (files (conn c) ! i))
       \<and> (\<forall>i < length (files (conn c)).
             file_id (files (conn c) ! i) \<noteq> ex_id existing
             \<longrightarrow> files (conn c') ! i = files (conn c) ! i)"
  using repair_cases [OF assms]
  by (elim disjE conjE) (auto simp: update_file_def snapshot_row_def)

theorem repair_undecided_keeps_album_witness:
  "(case repair_existing_file example_world example_context (snapshot_row example_file_row)
           example_file ''2024/03/u.jpg'' None of
      Inl exc \<Rightarrow> False
    | Inr (c', repaired) \<Rightarrow>
        repaired \<and> \<not> dry_run example_context
        \<and> map album_id (files (conn example_context)) = [Some ''ghost'']
        \<and> map album_id (files (conn c')) = [Some ''ghost''])"
  using repair_undecided_keeps_album [OF example_repair]
  by (simp add: example_repair) (simp add: example_store_def example_file_row_def example_context_def)

text \<open>
  Claim C6, as amended. For an item whose snapshot holds a non-empty container id that
  is not among the known ids, and whose file can be read, the repair with a decided
  container always reports an update; in a live run every row of the item is
  reassigned to the decided container, in a preview nothing is written.
\<close>

theorem repair_heals_dangling_when_decided:
  assumes "ex_album_id existing = Some a" and "a \<noteq> []" and "a \<notin> album_ids c"
    and "f_stat full_path = Some st_size"
  shows "(dry_run c \<longrightarrow>
            repair_existing_file w c existing full_path rel_key (Some t) = Inr (c, True))
       \<and> (\<not> dry_run c \<longrightarrow>
            (\<exists>c'. repair_existing_file w c existing full_path rel_key (Some t) = Inr (c', True)
               \<and> map file_id (files (conn c')) = map file_id (files (conn c))
               \<and> (\<forall>r \<in> set (files (conn c')). file_id r = ex_id existing \<longrightarrow> album_id r = Some t)
               \<and> (\<forall>i < length (files (conn c)).
                     file_id (files (conn c) ! i) \<noteq> ex_id existing
                     \<longrightarrow> files (conn c') ! i = files (conn c) ! i)))"
  using assms
  by (auto simp: repair_existing_file_def Let_def truthy_def update_file_def comp_def)

theorem repair_heals_dangling_when_decided_witness:
  "ex_album_id (snapshot_row example_file_row) = Some ''ghost''
   \<and> ''ghost'' \<notin> album_ids example_context
   \<and> f_stat example_file = Some 7
   \<and> \<not> dry_run example_context
   \<and> (case repair_existing_file example_world example_context (snapshot_row example_file_row)
           example_file ''2024/03/u.jpg'' (Some ''u9'') of
      Inl exc \<Rightarrow> False
    | Inr (c', repaired) \<Rightarrow> repaired \<and> map album_id (files (conn c')) = [Some ''u9''])"
proof -
  have h: "ex_album_id (snapshot_row example_file_row) = Some ''ghost''" "''ghost'' \<noteq> []"
    "''ghost'' \<notin> album_ids example_context" "f_stat example_file = Some 7"
    "\<not> dry_run example_context"
    by (simp_all add: snapshot_row_def example_file_row_def example_context_def example_file_def
        truthy_def)
  have r: "map album_id (files \<lparr>albums = [], files = [example_file_row\<lparr>album_id := Some ''u9'', file_size := 7, updated_at := ''t0''\<rparr>]\<rparr>) = [Some ''u9'']"
    by (simp add: example_file_row_def)
  from repair_heals_dangling_when_decided [OF h(1-4), of example_world "''2024/03/u.jpg''" "''u9''"] h r
  show ?thesis
    by (simp add: example_repair_decided)
qed

text \<open>
  When no container is decided the dangling reference is not cleared: a live repair
  run in mode \<open>auto\<close> over \<open>2024/03/u.jpg\<close>, whose row refers to the missing container
  \<open>ghost\<close>, reports one repaired item and leaves the reference in place.
\<close>

theorem dangling_reference_kept:
  "exit_code (recover example_world (example_args ''2024'' ''auto'' True False) example_fs example_store) = 0
   \<and> map album_id (files (final_store
        (recover example_world (example_args ''2024'' ''auto'' True False) example_fs example_store)))
       = [Some ''ghost'']
   \<and> albums (final_store
        (recover example_world (example_args ''2024'' ''auto'' True False) example_fs example_store)) = []
   \<and> map_option repaired_existing (summary
        (recover example_world (example_args ''2024'' ''auto'' True False) example_fs example_store)) = Some 1"
  by (simp add: eval_defs)

subsection \<open>The pre-flight check of the scan sub-directory\<close>

lemma inside_passes_check:
  assumes "take (length uploads) scan = uploads"
  shows "startswith (abs_str scan) (abs_str uploads)"
proof -
  from assms obtain r where "scan = uploads @ r"
    by (metis append_take_drop_id)
  then show ?thesis
    by (simp add: startswith_def abs_str_def py_join_append)
qed

text \<open>
  Claim C9 fails on the code. With the uploads directory \<open>/data/uploads\<close> and the
  sub-directory \<open>../uploads2\<close> the scan root resolves to \<open>/data/uploads2\<close>, which is
  not inside the uploads directory; yet its string starts with the string of the
  uploads directory, so the pre-flight check passes, the store is opened, and the run
  ends with status 1 when the first key cannot be made relative.
\<close>

theorem subdir_check_passes_outside:
  "scan_root (example_args ''../uploads2'' ''auto'' False False) = [''data'', ''uploads2'']
   \<and> take (length [''data'', ''uploads'']) [''data'', ''uploads2''] \<noteq> [''data'', ''uploads'']
   \<and> startswith (abs_str [''data'', ''uploads2'']) (abs_str [''data'', ''uploads''])
   \<and> normalize_rel_key [''data'', ''uploads2'', ''z.jpg''] [''data'', ''uploads''] = Inl ValueError
   \<and> exit_code (recover example_world (example_args ''../uploads2'' ''auto'' False False)
                  example_fs empty_store) = 1"
  by (simp add: eval_defs)

subsection \<open>Uniqueness across runs\<close>

text \<open>
  Claim C4. Starting from a store in which no two containers share a path or a slug
  and no container has the empty identifier, every sequence of runs whose identifiers
  are non-empty leaves such a store. \<open>ensure_unique_slug\<close> returns a slug that is
  neither stored nor known and registers it in the known-slug set it returns, so no
  call whose known-slug set contains that set returns the slug again. Within a run,
  preview or live: the known-slug set after a container is created is the one
  \<open>ensure_unique_slug\<close> returned; over any stretch of the walk, from any state, the
  known-slug set only grows, and it grows by exactly one slug for each container
  created, so the slugs handed out are new each time and pairwise distinct, whether
  or not the containers were written to the store; for a whole run the known-slug
  set starts as the slugs loaded from the store.
\<close>

theorem unique_paths_and_slugs:
  assumes "store_ok db" and "\<forall>r \<in> set rs. uuid_nonempty (fst r)"
  shows "store_ok (runs rs db)
       \<and> fst (ensure_unique_slug db' b p S) |\<notin>| S
       \<and> \<not> slug_exists db' (fst (ensure_unique_slug db' b p S))
       \<and> snd (ensure_unique_slug db' b p S) = finsert (fst (ensure_unique_slug db' b p S)) S
       \<and> (snd (ensure_unique_slug db' b p S) |\<subseteq>| T \<longrightarrow>
            fst (ensure_unique_slug db2 b2 p2 T) \<noteq> fst (ensure_unique_slug db' b p S))
       \<and> (create_album w c parent P seg = Inr c1 \<longrightarrow>
            slug_cache c1 = snd (ensure_unique_slug (conn c) (slugify seg) P (slug_cache c))
            \<and> created_albums c1 = created_albums c + 1)
       \<and> (walk w a ef s0 fl = Inr s1 \<longrightarrow>
            slug_cache (ctx s0) |\<subseteq>| slug_cache (ctx s1)
            \<and> fcard (slug_cache (ctx s1)) + created_albums (ctx s0)
                = fcard (slug_cache (ctx s0)) + created_albums (ctx s1))
       \<and> (summary (recover w a fs db0) = Some s2 \<longrightarrow>
            load_slug_cache db0 |\<subseteq>| slug_cache (ctx s2)
            \<and> fcard (slug_cache (ctx s2)) = fcard (load_slug_cache db0) + created_albums (ctx s2))"
proof -
  obtain s S' where e: "ensure_unique_slug db' b p S = (s, S')"
    by (cases "ensure_unique_slug db' b p S")
  obtain s2' T' where e2: "ensure_unique_slug db2 b2 p2 T = (s2', T')"
    by (cases "ensure_unique_slug db2 b2 p2 T")
  note p = ensure_unique_slug_props [OF e] and p2 = ensure_unique_slug_props [OF e2]
  have "S' |\<subseteq>| T \<longrightarrow> s2' \<noteq> s"
    using p(3) p2(2) by auto
  with p e e2 runs_store_ok [OF assms] have first:
    "store_ok (runs rs db)
       \<and> fst (ensure_unique_slug db' b p S) |\<notin>| S
       \<and> \<not> slug_exists db' (fst (ensure_unique_slug db' b p S))
       \<and> snd (ensure_unique_slug db' b p S) = finsert (fst (ensure_unique_slug db' b p S)) S
       \<and> (snd (ensure_unique_slug db' b p S) |\<subseteq>| T \<longrightarrow>
            fst (ensure_unique_slug db2 b2 p2 T) \<noteq> fst (ensure_unique_slug db' b p S))"
    by simp
  have create: "create_album w c parent P seg = Inr c1 \<longrightarrow>
            slug_cache c1 = snd (ensure_unique_slug (conn c) (slugify seg) P (slug_cache c))
            \<and> created_albums c1 = created_albums c + 1"
    using create_album_registers [of w c parent P seg c1] by simp
  have stretch: "walk w a ef s0 fl = Inr s1 \<longrightarrow>
            slug_cache (ctx s0) |\<subseteq>| slug_cache (ctx s1)
            \<and> fcard (slug_cache (ctx s1)) + created_albums (ctx s0)
                = fcard (slug_cache (ctx s0)) + created_albums (ctx s1)"
    using walk_slugs [of w a ef s0 fl s1] by (simp add: slugs_grow_def)
  have run: "summary (recover w a fs db0) = Some s2 \<longrightarrow>
            load_slug_cache db0 |\<subseteq>| slug_cache (ctx s2)
            \<and> fcard (slug_cache (ctx s2)) = fcard (load_slug_cache db0) + created_albums (ctx s2)"
    using recover_slugs [of w a fs db0 s2] by (simp add: slugs_grow_def initial_state_fields)
  from first create stretch run show ?thesis by simp
qed

theorem unique_paths_and_slugs_witness:
  "store_ok empty_store \<and> uuid_nonempty example_world
   \<and> runs [(example_world, example_args [] ''by-dir'' False False, example_fs),
            (example_world, example_args [] ''by-dir'' False False, example_fs)] empty_store
       = example_catalog
   \<and> store_ok example_catalog
   \<and> map alb_path (albums example_catalog) = [''/vacation'', ''/2024'', ''/2024/03'']
   \<and> map alb_slug (albums example_catalog) = [''vacation'', ''2024'', ''03'']
   \<and> ensure_unique_slug empty_store ''g'' ''/g!'' {||} = (''g'', {|''g''|})
   \<and> ensure_unique_slug empty_store ''g'' ''/g'' {|''g''|} = (''g-896568'', {|''g-896568'', ''g''|})
   \<and> (\<exists>c1. create_album example_world example_preview_context None ''/g'' ''g'' = Inr c1
         \<and> conn c1 = empty_store \<and> slug_cache c1 = {|''g-896568'', ''g''|} \<and> created_albums c1 = 2)
   \<and> (\<exists>s. summary (recover example_world (example_args [] ''by-dir'' False True) example_twin_fs
                 empty_store) = Some s
         \<and> slug_cache (ctx s) = {|''g-896568'', ''g''|} \<and> created_albums (ctx s) = 2
         \<and> fcard (slug_cache (ctx s)) = 2)"
proof -
  let ?r = "(example_world, example_args [] ''by-dir'' False False, example_fs)"
  let ?p = "example_args [] ''by-dir'' False True"
  have a: "store_ok empty_store" by (simp add: store_ok_def empty_store_def)
  have b: "\<forall>r \<in> set [?r, ?r]. uuid_nonempty (fst r)"
    by (simp add: example_world_uuid_nonempty)
  have c: "runs [?r, ?r] empty_store = example_catalog"
    by (simp add: example_by_dir_run example_by_dir_rerun)
  have d: "map alb_path (albums example_catalog) = [''/vacation'', ''/2024'', ''/2024/03'']"
    "map alb_slug (albums example_catalog) = [''vacation'', ''2024'', ''03'']"
    by (simp_all add: example_catalog_def example_album_def)
  from example_twin_create obtain c1 where
    c1: "create_album example_world example_preview_context None ''/g'' ''g'' = Inr c1"
      "slug_cache c1 = {|''g-896568'', ''g''|}" "created_albums c1 = 2" "conn c1 = empty_store"
    by blast
  from example_twin_preview obtain s1 where
    s1: "walk example_world ?p (load_existing_files empty_store) (initial_state ?p empty_store)
           (walked_files ?p example_twin_fs) = Inr s1"
    by blast
  from example_twin_run obtain s2 where
    s2: "summary (recover example_world ?p example_twin_fs empty_store) = Some s2"
      "slug_cache (ctx s2) = {|''g-896568'', ''g''|}" "created_albums (ctx s2) = 2"
    by blast
  have l: "load_slug_cache empty_store = {||}"
    by (simp add: load_slug_cache_def empty_store_def)
  note t = unique_paths_and_slugs [OF a b, where db' = empty_store and b = "''g''" and p = "''/g!''"
      and S = "{||}" and T = "{|''g''|}" and ?db2.0 = empty_store and ?b2.0 = "''g''"
      and ?p2.0 = "''/g''" and w = example_world and c = example_preview_context
      and parent = None and P = "''/g''" and seg = "''g''" and ?c1.0 = c1
      and a = ?p and ef = "load_existing_files empty_store"
      and ?s0.0 = "initial_state ?p empty_store" and fl = "walked_files ?p example_twin_fs"
      and ?s1.0 = s1 and fs = example_twin_fs and ?db0.0 = empty_store and ?s2.0 = s2]
  from t [THEN conjunct1] c have ok: "store_ok example_catalog" by simp
  note u = t [THEN conjunct2, THEN conjunct2, THEN conjunct2, THEN conjunct2, THEN conjunct2]
  from u [THEN conjunct1] c1(1) have "created_albums c1 = created_albums example_preview_context + 1"
    by simp
  from u [THEN conjunct2, THEN conjunct1] s1
  have "slug_cache (ctx (initial_state ?p empty_store)) |\<subseteq>| slug_cache (ctx s1)"
    by simp
  from u [THEN conjunct2, THEN conjunct2] s2(1)
  have "fcard (slug_cache (ctx s2)) = fcard (load_slug_cache empty_store) + created_albums (ctx s2)"
    by simp
  with l s2(3) have card: "fcard (slug_cache (ctx s2)) = 2" by simp
  from s2 card have run: "\<exists>s. summary (recover example_world ?p example_twin_fs empty_store) = Some s
         \<and> slug_cache (ctx s) = {|''g-896568'', ''g''|} \<and> created_albums (ctx s) = 2
         \<and> fcard (slug_cache (ctx s)) = 2"
    by blast
  from c1 have cr: "\<exists>c1. create_album example_world example_preview_context None ''/g'' ''g'' = Inr c1
         \<and> conn c1 = empty_store \<and> slug_cache c1 = {|''g-896568'', ''g''|} \<and> created_albums c1 = 2"
    by blast
  from a ok c d example_twin_slugs cr run show ?thesis
    by (simp add: example_world_uuid_nonempty)
qed

subsection \<open>At-most-once creation of the hierarchy\<close>

lemma example_chain:
  "ensure_album_chain example_world example_context ''/2024/03''
   = Inr (example_context
            \<lparr>conn := \<lparr>albums = [example_album ''u0'' ''2024'' None ''/2024'' ''t0'',
                                 example_album ''u1'' ''03'' (Some ''u0'') ''/2024/03'' ''t1''],
                       files = [example_file_row]\<rparr>,
             album_cache := [''/2024'' \<mapsto> ''u0'', ''/2024/03'' \<mapsto> ''u1''],
             slug_cache := {|''03'', ''2024''|},
             album_ids := {''u1'', ''u0''},
             created_albums := 2, uuid_calls := 2, clock_calls := 2\<rparr>, Some ''u1'')"
  by (simp add: example_context_def eval_defs album_chain_loop.simps)

text \<open>
  Claim C3. Given that \<^verbatim>\<open>uuid4\<close> never returns the empty string: an empty or root path
  yields no container and changes nothing. After a call for a path, a second call for
  the same path, for any path with the same normal form, or (when the first call had
  to build the chain) for any path whose normal form is one of the partial paths of
  the chain, returns the cached identifier and changes nothing. The number of
  containers created by a call, and by a whole walk, is the number of distinct
  partial paths that gained a container, so no path is created twice; and an entry of
  the path cache with a non-empty identifier is never replaced.
\<close>

theorem ensure_album_chain_once:
  assumes "uuid_nonempty w"
  shows "ensure_album_chain w c [] = Inr (c, None)
       \<and> ensure_album_chain w c ''/'' = Inr (c, None)
       \<and> (ensure_album_chain w c p = Inr (c1, r1) \<longrightarrow>
            ensure_album_chain w c1 p = Inr (c1, r1)
            \<and> created_albums c1 = created_albums c + card (newly_cached c c1)
            \<and> (\<forall>q. q \<noteq> [] \<and> q \<noteq> ''/'' \<and>
                  (normalize_album_path q = normalize_album_path p \<and> p \<noteq> [] \<and> p \<noteq> ''/''
                   \<or> album_cache c (normalize_album_path p) = None \<and> p \<noteq> [] \<and> p \<noteq> ''/'' \<and>
                     normalize_album_path q
                       \<in> set (chain_paths [] (py_split CHR ''/'' (py_strip ''/'' (normalize_album_path p)))))
                  \<longrightarrow> album_cache c1 (normalize_album_path q) \<noteq> None
                    \<and> ensure_album_chain w c1 q = Inr (c1, album_cache c1 (normalize_album_path q))))
       \<and> (walk w a ef rs fl = Inr rs' \<longrightarrow>
            created_albums (ctx rs') = created_albums (ctx rs) + card (newly_cached (ctx rs) (ctx rs'))
            \<and> (\<forall>P. truthy (album_cache (ctx rs) P) \<longrightarrow> album_cache (ctx rs') P = album_cache (ctx rs) P))"
proof -
  have root: "ensure_album_chain w c [] = Inr (c, None)" "ensure_album_chain w c ''/'' = Inr (c, None)"
    by (simp_all add: ensure_album_chain_def)
  have call: "ensure_album_chain w c1 p = Inr (c1, r1)
      \<and> created_albums c1 = created_albums c + card (newly_cached c c1)
      \<and> (\<forall>q. q \<noteq> [] \<and> q \<noteq> ''/'' \<and>
            (normalize_album_path q = normalize_album_path p \<and> p \<noteq> [] \<and> p \<noteq> ''/''
             \<or> album_cache c (normalize_album_path p) = None \<and> p \<noteq> [] \<and> p \<noteq> ''/'' \<and>
               normalize_album_path q
                 \<in> set (chain_paths [] (py_split CHR ''/'' (py_strip ''/'' (normalize_album_path p)))))
            \<longrightarrow> album_cache c1 (normalize_album_path q) \<noteq> None
              \<and> ensure_album_chain w c1 q = Inr (c1, album_cache c1 (normalize_album_path q)))"
    if e: "ensure_album_chain w c p = Inr (c1, r1)"
  proof (intro conjI allI impI)
    show "ensure_album_chain w c1 p = Inr (c1, r1)"
    proof (cases "p = [] \<or> p = ''/''")
      case True
      with e show ?thesis by (auto simp: ensure_album_chain_def)
    next
      case False
      with ensure_album_chain_cached [OF e] show ?thesis
        by (simp add: ensure_album_chain_hit)
    qed
    from ensure_album_chain_counted [OF e assms]
    show "created_albums c1 = created_albums c + card (newly_cached c c1)"
      by (simp add: counted_def)
  next
    fix q
    assume q: "q \<noteq> [] \<and> q \<noteq> ''/'' \<and>
            (normalize_album_path q = normalize_album_path p \<and> p \<noteq> [] \<and> p \<noteq> ''/''
             \<or> album_cache c (normalize_album_path p) = None \<and> p \<noteq> [] \<and> p \<noteq> ''/'' \<and>
               normalize_album_path q
                 \<in> set (chain_paths [] (py_split CHR ''/'' (py_strip ''/'' (normalize_album_path p)))))"
    have cached: "album_cache c1 (normalize_album_path q) \<noteq> None"
    proof (cases "normalize_album_path q = normalize_album_path p \<and> p \<noteq> [] \<and> p \<noteq> ''/''")
      case True
      with ensure_album_chain_cached(1) [OF e] show ?thesis by simp
    next
      case False
      with q have miss: "album_cache c (normalize_album_path p) = None" "p \<noteq> []" "p \<noteq> ''/''"
        and mem: "normalize_album_path q
                 \<in> set (chain_paths [] (py_split CHR ''/'' (py_strip ''/'' (normalize_album_path p))))"
        by auto
      from e miss have
        "album_chain_loop w c None [] (py_split CHR ''/'' (py_strip ''/'' (normalize_album_path p))) = Inr c1"
        by (auto simp: ensure_album_chain_def Let_def split: sum.splits)
      then show ?thesis using mem by (rule album_chain_loop_covers)
    qed
    then show "album_cache c1 (normalize_album_path q) \<noteq> None" .
    from q cached show "ensure_album_chain w c1 q = Inr (c1, album_cache c1 (normalize_album_path q))"
      by (simp add: ensure_album_chain_hit)
  qed
  have run: "created_albums (ctx rs') = created_albums (ctx rs) + card (newly_cached (ctx rs) (ctx rs'))
      \<and> (\<forall>P. truthy (album_cache (ctx rs) P) \<longrightarrow> album_cache (ctx rs') P = album_cache (ctx rs) P)"
    if "walk w a ef rs fl = Inr rs'"
    using walk_counted [OF that assms] by (simp add: counted_def)
  from root call run show ?thesis by blast
qed

theorem ensure_album_chain_once_witness:
  "uuid_nonempty example_world
   \<and> (case ensure_album_chain example_world example_context ''/2024/03'' of
        Inl exc \<Rightarrow> False
      | Inr (c1, r1) \<Rightarrow>
          r1 = Some ''u1'' \<and> created_albums c1 = 2
          \<and> ensure_album_chain example_world c1 ''/2024/03'' = Inr (c1, Some ''u1'')
          \<and> ensure_album_chain example_world c1 ''2024//03/'' = Inr (c1, Some ''u1'')
          \<and> ensure_album_chain example_world c1 ''/2024'' = Inr (c1, Some ''u0''))"
proof -
  let ?c1 = "example_context
            \<lparr>conn := \<lparr>albums = [example_album ''u0'' ''2024'' None ''/2024'' ''t0'',
                                 example_album ''u1'' ''03'' (Some ''u0'') ''/2024/03'' ''t1''],
                       files = [example_file_row]\<rparr>,
             album_cache := [''/2024'' \<mapsto> ''u0'', ''/2024/03'' \<mapsto> ''u1''],
             slug_cache := {|''03'', ''2024''|},
             album_ids := {''u1'', ''u0''},
             created_albums := 2, uuid_calls := 2, clock_calls := 2\<rparr>"
  have u: "uuid_nonempty example_world"
    by (simp add: uuid_nonempty_def example_world_def)
  have n: "normalize_album_path ''2024//03/'' = ''/2024/03''" "normalize_album_path ''/2024/03'' = ''/2024/03''"
    "normalize_album_path ''/2024'' = ''/2024''"
    by (simp_all add: normalize_album_path_def py_strip_def)
  have m: "album_cache example_context ''/2024/03'' = None"
    "''/2024'' \<in> set (chain_paths [] (py_split CHR ''/'' (py_strip ''/'' ''/2024/03'')))"
    "album_cache ?c1 ''/2024/03'' = Some ''u1''" "album_cache ?c1 ''/2024'' = Some ''u0''"
    "created_albums ?c1 = 2"
    by (simp_all add: example_context_def py_strip_def)
  from ensure_album_chain_once [OF u, of example_context "''/2024/03''" ?c1 "Some ''u1''"]
    example_chain
  have "ensure_album_chain example_world ?c1 ''/2024/03'' = Inr (?c1, Some ''u1'')"
    and q: "\<And>q. q \<noteq> [] \<and> q \<noteq> ''/'' \<and>
                  (normalize_album_path q = normalize_album_path ''/2024/03'' \<and> ''/2024/03'' \<noteq> [] \<and> ''/2024/03'' \<noteq> ''/''
                   \<or> album_cache example_context (normalize_album_path ''/2024/03'') = None \<and> ''/2024/03'' \<noteq> [] \<and> ''/2024/03'' \<noteq> ''/'' \<and>
                     normalize_album_path q
                       \<in> set (chain_paths [] (py_split CHR ''/'' (py_strip ''/'' (normalize_album_path ''/2024/03'')))))
                  \<Longrightarrow> ensure_album_chain example_world ?c1 q = Inr (?c1, album_cache ?c1 (normalize_album_path q))"
    by blast+
  moreover from q [of "''2024//03/''"] n m
  have "ensure_album_chain example_world ?c1 ''2024//03/'' = Inr (?c1, Some ''u1'')"
    by simp
  moreover from q [of "''/2024''"] n m
  have "ensure_album_chain example_world ?c1 ''/2024'' = Inr (?c1, Some ''u0'')"
    by simp
  ultimately show ?thesis
    using u m(5) by (simp add: example_chain)
qed

subsection \<open>Idempotence of the reconciliation\<close>




subsection \<open>Preview and live run\<close>



end
